theory Spec2Isabelle
  imports Main
begin

section \<open>The call attendant (app.py): values, exceptions, observable events\<close>

text \<open>
  The engine of \<^verbatim>\<open>app.py\<close> is the class \<^verbatim>\<open>CallAttendant\<close>: \<^verbatim>\<open>handle_caller\<close>
  puts callers in a queue, \<^verbatim>\<open>run\<close> takes them out one by one, screens, logs,
  waits for rings and calls \<^verbatim>\<open>answer_call\<close>. Everything else (screener, logger, modem,
  voice mail, indicators) is a collaborator object whose code is not part of this file;
  the model takes the collaborators as a record of functions on an arbitrary world state,
  each returning either a value or a raised exception, and records in a trace every
  collaborator call and every console line the engine makes, in program order.
\<close>

datatype pyval = Str string | IntV int | NoneV

text \<open>
  Exceptions as values. \<open>KeyboardInterrupt\<close> stands for the exceptions that derive
  from \<^verbatim>\<open>BaseException\<close> only, which \<^verbatim>\<open>except Exception\<close> does not catch;
  \<open>RuntimeError\<close> stands for every instance of \<^verbatim>\<open>RuntimeError\<close>, its subclasses
  included: what \<^verbatim>\<open>except RuntimeError\<close> catches. The other constructors are
  exceptions that are not instances of \<^verbatim>\<open>RuntimeError\<close>.
\<close>

datatype exn =
    KeyError string
  | TypeError string
  | RuntimeError string
  | OSError string
  | UnboundLocalError string
  | KeyboardInterrupt

fun is_RuntimeError :: "exn \<Rightarrow> bool" where
  "is_RuntimeError (RuntimeError _) = True"
| "is_RuntimeError _ = False"

fun is_Exception :: "exn \<Rightarrow> bool" where
  "is_Exception KeyboardInterrupt = False"
| "is_Exception _ = True"

text \<open>A caller is the dict the modem hands over; keys and values in insertion order.\<close>

type_synonym caller = "(string \<times> pyval) list"

datatype event =
    Print string "pyval list"
  | PrintExn string exn
  | PPrintExn exn
  | PPrintCaller caller
  | HandleCalls
  | IsWhitelisted caller
  | IsBlacklisted caller
  | ApprovedBlink
  | BlockedBlink
  | LogCaller caller string pyval
  | RingWait int
  | PickUp
  | PlayAudio string
  | RecordMessage pyval caller
  | VoiceMessagingMenu pyval caller
  | HangUp

fun is_LogCaller :: "event \<Rightarrow> bool" where
  "is_LogCaller (LogCaller _ _ _) = True"
| "is_LogCaller _ = False"

fun is_IsBlacklisted :: "event \<Rightarrow> bool" where
  "is_IsBlacklisted (IsBlacklisted _) = True"
| "is_IsBlacklisted _ = False"

fun is_RecordMessage :: "event \<Rightarrow> bool" where
  "is_RecordMessage (RecordMessage _ _) = True"
| "is_RecordMessage _ = False"

fun is_VoiceMessagingMenu :: "event \<Rightarrow> bool" where
  "is_VoiceMessagingMenu (VoiceMessagingMenu _ _) = True"
| "is_VoiceMessagingMenu _ = False"

fun is_Print :: "event \<Rightarrow> bool" where
  "is_Print (Print _ _) = True"
| "is_Print (PrintExn _ _) = True"
| "is_Print _ = False"

fun is_RingWait :: "event \<Rightarrow> bool" where
  "is_RingWait (RingWait _) = True"
| "is_RingWait _ = False"

text \<open>What the screening of lines 128-156 can add to the trace.\<close>

fun is_screening :: "event \<Rightarrow> bool" where
  "is_screening (Print _ _) = True"
| "is_screening (IsWhitelisted _) = True"
| "is_screening (IsBlacklisted _) = True"
| "is_screening ApprovedBlink = True"
| "is_screening BlockedBlink = True"
| "is_screening _ = False"

text \<open>
  An answer attempt or anything after it: going off-hook, the actions, going on-hook.
\<close>

fun is_answering :: "event \<Rightarrow> bool" where
  "is_answering PickUp = True"
| "is_answering (PlayAudio _) = True"
| "is_answering (RecordMessage _ _) = True"
| "is_answering (VoiceMessagingMenu _ _) = True"
| "is_answering HangUp = True"
| "is_answering _ = False"

subsection \<open>Collaborators, configuration, engine state\<close>

text \<open>
  \<open>ring_event_wait\<close> is \<^verbatim>\<open>self.modem.ring_event.wait(timeout)\<close>: it returns whether
  the event was signalled before the timeout and raises nothing. The other fields are the
  methods of the same names (\<open>approved_blink\<close> and \<open>blocked_blink\<close> are
  \<^verbatim>\<open>approved_indicator.blink()\<close> and \<^verbatim>\<open>blocked_indicator.blink()\<close>).
\<close>

record 'w collaborators =
  handle_calls :: "'w \<Rightarrow> (exn + unit) \<times> 'w"
  is_whitelisted :: "caller \<Rightarrow> 'w \<Rightarrow> (exn + bool \<times> pyval) \<times> 'w"
  is_blacklisted :: "caller \<Rightarrow> 'w \<Rightarrow> (exn + bool \<times> pyval) \<times> 'w"
  approved_blink :: "'w \<Rightarrow> (exn + unit) \<times> 'w"
  blocked_blink :: "'w \<Rightarrow> (exn + unit) \<times> 'w"
  log_caller :: "caller \<Rightarrow> string \<Rightarrow> pyval \<Rightarrow> 'w \<Rightarrow> (exn + pyval) \<times> 'w"
  ring_event_wait :: "int \<Rightarrow> 'w \<Rightarrow> bool \<times> 'w"
  pick_up :: "'w \<Rightarrow> (exn + bool) \<times> 'w"
  hang_up :: "'w \<Rightarrow> (exn + unit) \<times> 'w"
  play_audio :: "string \<Rightarrow> 'w \<Rightarrow> (exn + unit) \<times> 'w"
  record_message :: "pyval \<Rightarrow> caller \<Rightarrow> 'w \<Rightarrow> (exn + unit) \<times> 'w"
  voice_messaging_menu :: "pyval \<Rightarrow> caller \<Rightarrow> 'w \<Rightarrow> (exn + unit) \<times> 'w"

text \<open>
  The settings \<^verbatim>\<open>run\<close> reads: \<^verbatim>\<open>config["DEBUG"]\<close>, \<^verbatim>\<open>config["SCREENING_MODE"]\<close>
  and the namespaces \<^verbatim>\<open>PERMITTED_\<close>, \<^verbatim>\<open>SCREENED_\<close>, \<^verbatim>\<open>BLOCKED_\<close>, each with
  \<^verbatim>\<open>actions\<close>, \<^verbatim>\<open>greeting_file\<close> and \<^verbatim>\<open>rings_before_answer\<close>. \<^verbatim>\<open>main\<close>
  starts the engine only with a configuration that \<^verbatim>\<open>validate()\<close> accepted, so the
  settings are taken as present and of their types: the modes and the actions as
  sequences of strings (\<^verbatim>\<open>in\<close> is membership), the ring count as an integer.
\<close>

record namespace =
  actions :: "string list"
  greeting_file :: string
  rings_before_answer :: int

record config =
  debug :: bool
  screening_mode :: "string list"
  permitted :: namespace
  screened :: namespace
  blocked :: namespace

record 'w engine =
  world :: 'w
  trace :: "event list"

definition emit :: "event \<Rightarrow> 'w engine \<Rightarrow> 'w engine" where
  "emit ev s = s\<lparr>trace := trace s @ [ev]\<rparr>"

text \<open>Calling a collaborator: the call is recorded, the world is what the call left.\<close>

definition invoke :: "event \<Rightarrow> ('w \<Rightarrow> 'r \<times> 'w) \<Rightarrow> 'w engine \<Rightarrow> 'r \<times> 'w engine" where
  "invoke ev f s = (case f (world s) of (r, w') \<Rightarrow> (r, \<lparr>world = w', trace = trace s @ [ev]\<rparr>))"

text \<open>Sequencing two steps: an exception raised by the first skips the second.\<close>

definition seq ::
  "('s \<Rightarrow> (exn + 'a) \<times> 's) \<Rightarrow> ('a \<Rightarrow> 's \<Rightarrow> (exn + 'b) \<times> 's) \<Rightarrow> 's \<Rightarrow> (exn + 'b) \<times> 's" where
  "seq m f s = (case m s of (Inl e, s') \<Rightarrow> (Inl e, s') | (Inr a, s') \<Rightarrow> f a s')"

text \<open>The events a step added to the trace.\<close>

definition emitted :: "'w engine \<Rightarrow> 'w engine \<Rightarrow> event list" where
  "emitted s s' = drop (length (trace s)) (trace s')"

section \<open>handle_caller (lines 87-97)\<close>

text \<open>
  The modem's callback. The queue is \<^verbatim>\<open>queue.Queue()\<close>, unbounded: \<^verbatim>\<open>put\<close> appends
  and never blocks. The queue is passed beside the engine state.
\<close>

definition handle_caller ::
  "config \<Rightarrow> caller \<Rightarrow> caller list \<times> 'w engine \<Rightarrow> caller list \<times> 'w engine" where
  "handle_caller cfg caller qs =
     (case qs of (q, s) \<Rightarrow>
        (q @ [caller],
         if debug cfg
         then emit (PPrintCaller caller) (emit (Print ''Adding to caller queue:'' []) s)
         else s))"

section \<open>answer_call (lines 201-229)\<close>

text \<open>The body of the \<^verbatim>\<open>try\<close> block, lines 209-222.\<close>

definition answer_actions ::
  "'w collaborators \<Rightarrow> string list \<Rightarrow> string \<Rightarrow> pyval \<Rightarrow> caller \<Rightarrow> 'w engine
     \<Rightarrow> (exn + unit) \<times> 'w engine" where
  "answer_actions c acts greeting call_no caller =
     seq (\<lambda>s. if ''greeting'' \<in> set acts
               then invoke (PlayAudio greeting) (play_audio c greeting)
                      (emit (Print ''>> Playing greeting...'' []) s)
               else (Inr (), s))
         (\<lambda>_ s. if ''record_message'' \<in> set acts
                 then invoke (RecordMessage call_no caller) (record_message c call_no caller)
                        (emit (Print ''>> Recording message...'' []) s)
                 else if ''voice_mail'' \<in> set acts
                 then invoke (VoiceMessagingMenu call_no caller)
                        (voice_messaging_menu c call_no caller)
                        (emit (Print ''>> Starting voice mail...'' []) s)
                 else (Inr (), s))"

text \<open>
  \<^verbatim>\<open>except RuntimeError\<close> (lines 224-225): a \<^verbatim>\<open>RuntimeError\<close> is printed and
  dropped, any other exception stays raised.
\<close>

definition except_RuntimeError :: "(exn + unit) \<times> 'w engine \<Rightarrow> (exn + unit) \<times> 'w engine" where
  "except_RuntimeError rs =
     (case rs of
        (Inr u, s) \<Rightarrow> (Inr u, s)
      | (Inl e, s) \<Rightarrow>
          if is_RuntimeError e
          then (Inr (), emit (PrintExn ''** Error handling a blocked caller: {}'' e) s)
          else (Inl e, s))"

text \<open>
  \<^verbatim>\<open>finally: self.modem.hang_up()\<close> (lines 227-229): runs whatever the outcome; an
  exception of \<^verbatim>\<open>hang_up\<close> replaces a pending one, otherwise the pending one is raised
  again.
\<close>

definition finally_hang_up ::
  "'w collaborators \<Rightarrow> (exn + unit) \<times> 'w engine \<Rightarrow> (exn + unit) \<times> 'w engine" where
  "finally_hang_up c rs =
     (case rs of (r, s) \<Rightarrow>
        (case invoke HangUp (hang_up c) s of
           (Inl e, s') \<Rightarrow> (Inl e, s')
         | (Inr _, s') \<Rightarrow> (r, s')))"

definition answer_call ::
  "'w collaborators \<Rightarrow> string list \<Rightarrow> string \<Rightarrow> pyval \<Rightarrow> caller \<Rightarrow> 'w engine
     \<Rightarrow> (exn + unit) \<times> 'w engine" where
  "answer_call c acts greeting call_no caller s =
     (case invoke PickUp (pick_up c) s of
        (Inl e, s1) \<Rightarrow> (Inl e, s1)
      | (Inr False, s1) \<Rightarrow> (Inr (), s1)
      | (Inr True, s1) \<Rightarrow>
          finally_hang_up c
            (except_RuntimeError (answer_actions c acts greeting call_no caller s1)))"

section \<open>run (lines 99-199)\<close>

subsection \<open>The number of the caller (lines 124-126)\<close>

text \<open>
  \<^verbatim>\<open>caller["NMBR"]\<close> raises \<^verbatim>\<open>KeyError\<close> when the key is missing; the slices
  \<^verbatim>\<open>number[0:3]\<close>, \<^verbatim>\<open>number[3:6]\<close>, \<^verbatim>\<open>number[6:]\<close> never raise on a string and
  raise \<^verbatim>\<open>TypeError\<close> on \<^verbatim>\<open>None\<close> or an int.
\<close>

definition phone_number :: "caller \<Rightarrow> exn + string" where
  "phone_number caller =
     (case map_of caller ''NMBR'' of
        None \<Rightarrow> Inl (KeyError ''NMBR'')
      | Some (Str number) \<Rightarrow>
          Inr (take 3 number @ ''-'' @ take 3 (drop 3 number) @ ''-'' @ drop 6 number)
      | Some _ \<Rightarrow> Inl (TypeError ''object is not subscriptable''))"

subsection \<open>Screening (lines 128-156)\<close>

text \<open>The local variables of lines 129-133.\<close>

record screening =
  caller_permitted :: bool
  caller_screened :: bool
  caller_blocked :: bool
  action :: string
  reason :: pyval

definition screening_init :: screening where
  "screening_init =
     \<lparr>caller_permitted = False, caller_screened = False, caller_blocked = False,
      action = '''', reason = Str ''''\<rparr>"

text \<open>Lines 136-142.\<close>

definition check_whitelist ::
  "'w collaborators \<Rightarrow> string list \<Rightarrow> caller \<Rightarrow> screening \<Rightarrow> 'w engine
     \<Rightarrow> (exn + screening) \<times> 'w engine" where
  "check_whitelist c mode caller v s =
     (if ''whitelist'' \<in> set mode then
        (case invoke (IsWhitelisted caller) (is_whitelisted c caller)
                (emit (Print ''> Checking whitelist(s)'' []) s) of
           (Inl e, s1) \<Rightarrow> (Inl e, s1)
         | (Inr (is_wl, why), s1) \<Rightarrow>
             if is_wl then
               (case invoke ApprovedBlink (approved_blink c) s1 of
                  (Inl e, s2) \<Rightarrow> (Inl e, s2)
                | (Inr _, s2) \<Rightarrow>
                    (Inr (v\<lparr>caller_permitted := True, action := ''Permitted'', reason := why\<rparr>), s2))
             else (Inr (v\<lparr>reason := why\<rparr>), s1))
      else (Inr v, s))"

text \<open>Lines 145-151.\<close>

definition check_blacklist ::
  "'w collaborators \<Rightarrow> string list \<Rightarrow> caller \<Rightarrow> screening \<Rightarrow> 'w engine
     \<Rightarrow> (exn + screening) \<times> 'w engine" where
  "check_blacklist c mode caller v s =
     (if \<not> caller_permitted v \<and> ''blacklist'' \<in> set mode then
        (case invoke (IsBlacklisted caller) (is_blacklisted c caller)
                (emit (Print ''> Checking blacklist(s)'' []) s) of
           (Inl e, s1) \<Rightarrow> (Inl e, s1)
         | (Inr (is_bl, why), s1) \<Rightarrow>
             if is_bl then
               (case invoke BlockedBlink (blocked_blink c) s1 of
                  (Inl e, s2) \<Rightarrow> (Inl e, s2)
                | (Inr _, s2) \<Rightarrow>
                    (Inr (v\<lparr>caller_blocked := True, action := ''Blocked'', reason := why\<rparr>), s2))
             else (Inr (v\<lparr>reason := why\<rparr>), s1))
      else (Inr v, s))"

text \<open>Lines 153-156.\<close>

definition default_screened ::
  "'w collaborators \<Rightarrow> screening \<Rightarrow> 'w engine \<Rightarrow> (exn + screening) \<times> 'w engine" where
  "default_screened c v s =
     (if \<not> caller_permitted v \<and> \<not> caller_blocked v then
        (case invoke ApprovedBlink (approved_blink c) s of
           (Inl e, s1) \<Rightarrow> (Inl e, s1)
         | (Inr _, s1) \<Rightarrow> (Inr (v\<lparr>caller_screened := True, action := ''Screened''\<rparr>), s1))
      else (Inr v, s))"

definition screen_caller ::
  "'w collaborators \<Rightarrow> string list \<Rightarrow> caller \<Rightarrow> 'w engine \<Rightarrow> (exn + screening) \<times> 'w engine" where
  "screen_caller c mode caller =
     seq (check_whitelist c mode caller screening_init)
         (\<lambda>v. seq (check_blacklist c mode caller v) (default_screened c))"

subsection \<open>The data used to answer (lines 163-174)\<close>

text \<open>
  An \<^verbatim>\<open>if/elif/elif\<close> without \<^verbatim>\<open>else\<close>: were no flag set, \<^verbatim>\<open>actions\<close> would be
  unbound at line 179.
\<close>

definition gather :: "config \<Rightarrow> screening \<Rightarrow> exn + namespace" where
  "gather cfg v =
     (if caller_permitted v then Inr (permitted cfg)
      else if caller_screened v then Inr (screened cfg)
      else if caller_blocked v then Inr (blocked cfg)
      else Inl (UnboundLocalError ''rings_before_answer''))"

subsection \<open>Waiting for the rings (lines 177-190)\<close>

text \<open>Returns \<^verbatim>\<open>ok_to_answer\<close> and \<^verbatim>\<open>ring_count\<close> as the loop leaves them.\<close>

function ring_wait_loop ::
  "'w collaborators \<Rightarrow> int \<Rightarrow> int \<Rightarrow> 'w engine \<Rightarrow> (bool \<times> int) \<times> 'w engine" where
  "ring_wait_loop c rings ring_count s =
     (if ring_count < rings then
        (case invoke (RingWait 7) (ring_event_wait c 7) s of
           (True, s1) \<Rightarrow>
             ring_wait_loop c rings (ring_count + 1)
               (emit (Print '' > > > Ring count: {}'' [IntV (ring_count + 1)]) s1)
         | (False, s1) \<Rightarrow>
             ((False, ring_count),
              emit (Print '' > > > Ringing stopped: Caller hung up or callee answered'' []) s1))
      else ((True, ring_count), s))"
  by pat_completeness auto

termination
  by (relation "measure (\<lambda>(c, rings, ring_count, s). nat (rings - ring_count))") auto

subsection \<open>One pass of the loop body after the caller is taken from the queue (lines 124-194)\<close>

definition answer_if_ok ::
  "'w collaborators \<Rightarrow> namespace \<Rightarrow> pyval \<Rightarrow> caller \<Rightarrow> 'w engine \<Rightarrow> (exn + unit) \<times> 'w engine" where
  "answer_if_ok c ns call_no caller s =
     (case ring_wait_loop c (rings_before_answer ns) 1 s of
        ((ok_to_answer, ring_count), s1) \<Rightarrow>
          if ok_to_answer \<and> length (actions ns) > 0
          then answer_call c (actions ns) (greeting_file ns) call_no caller s1
          else (Inr (), s1))"

definition log_and_answer ::
  "'w collaborators \<Rightarrow> config \<Rightarrow> caller \<Rightarrow> string \<Rightarrow> screening \<Rightarrow> 'w engine
     \<Rightarrow> (exn + unit) \<times> 'w engine" where
  "log_and_answer c cfg caller phone_no v =
     seq (invoke (LogCaller caller (action v) (reason v))
            (log_caller c caller (action v) (reason v)))
         (\<lambda>call_no s.
            seq (\<lambda>s1. (gather cfg v, s1))
                (\<lambda>ns. answer_if_ok c ns call_no caller)
                (emit (Print ''--> {} {}: {}'' [Str phone_no, Str (action v), reason v]) s))"

definition process_call ::
  "'w collaborators \<Rightarrow> config \<Rightarrow> caller \<Rightarrow> 'w engine \<Rightarrow> (exn + unit) \<times> 'w engine" where
  "process_call c cfg caller s =
     (case phone_number caller of
        Inl e \<Rightarrow> (Inl e, s)
      | Inr phone_no \<Rightarrow>
          seq (screen_caller c (screening_mode cfg) caller)
              (log_and_answer c cfg caller phone_no)
              (emit (Print ''Incoming call from {}'' [Str phone_no]) s))"

subsection \<open>The loop (lines 118-199) and run\<close>

text \<open>
  \<open>Blocked\<close>: the queue is empty and \<^verbatim>\<open>get()\<close> waits for the modem's next caller;
  \<open>Returned 1\<close>: the \<^verbatim>\<open>except Exception\<close> clause of line 196 ran; \<open>Raised\<close>: an
  exception left \<^verbatim>\<open>run\<close>. The second component is what is left in the queue.
\<close>

datatype run_result = Returned int | Raised exn | Blocked

fun run_loop ::
  "'w collaborators \<Rightarrow> config \<Rightarrow> caller list \<Rightarrow> 'w engine
     \<Rightarrow> run_result \<times> caller list \<times> 'w engine" where
  "run_loop c cfg [] s = (Blocked, [], s)"
| "run_loop c cfg (caller # q) s =
     (case process_call c cfg caller s of
        (Inr _, s1) \<Rightarrow> run_loop c cfg q s1
      | (Inl e, s1) \<Rightarrow>
          if is_Exception e
          then (Returned 1, q,
                emit (Print ''** Error running callattendant. Exiting.'' []) (emit (PPrintExn e) s1))
          else (Raised e, q, s1))"

definition run ::
  "'w collaborators \<Rightarrow> config \<Rightarrow> caller list \<Rightarrow> 'w engine
     \<Rightarrow> run_result \<times> caller list \<times> 'w engine" where
  "run c cfg q s =
     (case invoke HandleCalls (handle_calls c) s of
        (Inl e, s1) \<Rightarrow> (Raised e, q, s1)
      | (Inr _, s1) \<Rightarrow> run_loop c cfg q s1)"

section \<open>The ring signal\<close>

text \<open>
  What \<open>n\<close> calls of \<^verbatim>\<open>ring_event.wait(7)\<close> made one after the other return, each
  on the world the one before left: the return values of the waits, not the rings of the
  line. Whether a wait that returns true has seen a new ring depends on the ring event
  itself, modelled below.
\<close>

primrec wait_results :: "'w collaborators \<Rightarrow> nat \<Rightarrow> 'w \<Rightarrow> bool list" where
  "wait_results c 0 w = []"
| "wait_results c (Suc n) w =
     (case ring_event_wait c 7 w of (b, w') \<Rightarrow> b # wait_results c n w')"

text \<open>
  \<^verbatim>\<open>modem.ring_event\<close> is waited on with \<^verbatim>\<open>wait(7)\<close>, the method of Python's
  \<^verbatim>\<open>threading.Event\<close>: it returns at once when the internal flag is set, otherwise
  it blocks until another thread sets the flag or the timeout passes; it never changes
  the flag. The other thread is the modem's, whose code is not in \<^verbatim>\<open>app.py\<close>; it
  is a parameter here, the list of what it does during each wait that blocks:
  nothing (\<open>Silence\<close>), \<^verbatim>\<open>set()\<close> alone (\<open>SetOnly\<close>), or \<^verbatim>\<open>set()\<close> followed by
  \<^verbatim>\<open>clear()\<close> (\<open>Pulse\<close>).
\<close>

datatype producer_step = Silence | SetOnly | Pulse

record ring_event =
  flag :: bool
  schedule :: "producer_step list"

definition event_wait :: "int \<Rightarrow> ring_event \<Rightarrow> bool \<times> ring_event" where
  "event_wait timeout ev =
     (if flag ev then (True, ev)
      else (case schedule ev of
              [] \<Rightarrow> (False, ev)
            | Silence # rest \<Rightarrow> (False, ev\<lparr>schedule := rest\<rparr>)
            | SetOnly # rest \<Rightarrow> (True, \<lparr>flag = True, schedule = rest\<rparr>)
            | Pulse # rest \<Rightarrow> (True, \<lparr>flag = False, schedule = rest\<rparr>)))"

text \<open>The steps of the producer that the waits between two states have used up.\<close>

definition consumed :: "ring_event \<Rightarrow> ring_event \<Rightarrow> producer_step list" where
  "consumed ev ev' = take (length (schedule ev) - length (schedule ev')) (schedule ev)"

section \<open>Collaborators that record the calls they receive\<close>

text \<open>
  The trace is written by the engine. To state that a collaborator really is called, the
  collaborators themselves keep a record: \<open>recording c\<close> behaves as \<open>c\<close> on the world
  and appends every call it receives, with its arguments, to a list kept beside the
  world. The engine cannot write to that list: it reaches the world through the
  collaborators only.
\<close>

fun is_call :: "event \<Rightarrow> bool" where
  "is_call (Print _ _) = False"
| "is_call (PrintExn _ _) = False"
| "is_call (PPrintExn _) = False"
| "is_call (PPrintCaller _) = False"
| "is_call _ = True"

definition recording :: "'w collaborators \<Rightarrow> ('w \<times> event list) collaborators" where
  "recording c =
     \<lparr>handle_calls =
        (\<lambda>wl. case handle_calls c (fst wl) of (r, w') \<Rightarrow> (r, (w', snd wl @ [HandleCalls]))),
      is_whitelisted =
        (\<lambda>caller wl. case is_whitelisted c caller (fst wl) of
                        (r, w') \<Rightarrow> (r, (w', snd wl @ [IsWhitelisted caller]))),
      is_blacklisted =
        (\<lambda>caller wl. case is_blacklisted c caller (fst wl) of
                        (r, w') \<Rightarrow> (r, (w', snd wl @ [IsBlacklisted caller]))),
      approved_blink =
        (\<lambda>wl. case approved_blink c (fst wl) of (r, w') \<Rightarrow> (r, (w', snd wl @ [ApprovedBlink]))),
      blocked_blink =
        (\<lambda>wl. case blocked_blink c (fst wl) of (r, w') \<Rightarrow> (r, (w', snd wl @ [BlockedBlink]))),
      log_caller =
        (\<lambda>caller act why wl. case log_caller c caller act why (fst wl) of
                                (r, w') \<Rightarrow> (r, (w', snd wl @ [LogCaller caller act why]))),
      ring_event_wait =
        (\<lambda>timeout wl. case ring_event_wait c timeout (fst wl) of
                         (r, w') \<Rightarrow> (r, (w', snd wl @ [RingWait timeout]))),
      pick_up =
        (\<lambda>wl. case pick_up c (fst wl) of (r, w') \<Rightarrow> (r, (w', snd wl @ [PickUp]))),
      hang_up =
        (\<lambda>wl. case hang_up c (fst wl) of (r, w') \<Rightarrow> (r, (w', snd wl @ [HangUp]))),
      play_audio =
        (\<lambda>file wl. case play_audio c file (fst wl) of
                      (r, w') \<Rightarrow> (r, (w', snd wl @ [PlayAudio file]))),
      record_message =
        (\<lambda>call_no caller wl. case record_message c call_no caller (fst wl) of
                                (r, w') \<Rightarrow> (r, (w', snd wl @ [RecordMessage call_no caller]))),
      voice_messaging_menu =
        (\<lambda>call_no caller wl. case voice_messaging_menu c call_no caller (fst wl) of
                                (r, w') \<Rightarrow> (r, (w', snd wl @ [VoiceMessagingMenu call_no caller])))\<rparr>"

text \<open>The calls the collaborators received between two states of the engine.\<close>

definition received ::
  "('w \<times> event list) engine \<Rightarrow> ('w \<times> event list) engine \<Rightarrow> event list" where
  "received s s' = drop (length (snd (world s))) (snd (world s'))"

text \<open>
  The record agrees with the trace: between the two states the trace grew by some events
  and the record by the calls among them.
\<close>

definition faithful ::
  "('w \<times> event list) engine \<Rightarrow> ('w \<times> event list) engine \<Rightarrow> bool" where
  "faithful s s' \<longleftrightarrow>
     (\<exists>evs. trace s' = trace s @ evs \<and> snd (world s') = snd (world s) @ filter is_call evs)"

section \<open>A concrete line\<close>

text \<open>
  Collaborators for running the engine on concrete calls: a whitelist with one number, a
  blacklist with one number, a logger that numbers every call 1, a modem that goes
  off-hook whenever asked, and actions that succeed. The world is the ring event.
\<close>

definition line :: "ring_event collaborators" where
  "line =
     \<lparr>handle_calls = (\<lambda>w. (Inr (), w)),
      is_whitelisted =
        (\<lambda>caller w. (if map_of caller ''NMBR'' = Some (Str ''5551234567'')
                       then Inr (True, Str ''Family'') else Inr (False, NoneV), w)),
      is_blacklisted =
        (\<lambda>caller w. (if map_of caller ''NMBR'' = Some (Str ''5559998888'')
                       then Inr (True, Str ''Telemarketer'') else Inr (False, NoneV), w)),
      approved_blink = (\<lambda>w. (Inr (), w)),
      blocked_blink = (\<lambda>w. (Inr (), w)),
      log_caller = (\<lambda>caller act why w. (Inr (IntV 1), w)),
      ring_event_wait = event_wait,
      pick_up = (\<lambda>w. (Inr True, w)),
      hang_up = (\<lambda>w. (Inr (), w)),
      play_audio = (\<lambda>file w. (Inr (), w)),
      record_message = (\<lambda>call_no caller w. (Inr (), w)),
      voice_messaging_menu = (\<lambda>call_no caller w. (Inr (), w))\<rparr>"

definition settings :: config where
  "settings =
     \<lparr>debug = False,
      screening_mode = [''whitelist'', ''blacklist''],
      permitted = \<lparr>actions = [''greeting'', ''record_message''],
                   greeting_file = ''general_greeting.wav'', rings_before_answer = 2\<rparr>,
      screened = \<lparr>actions = [''greeting'', ''record_message'', ''voice_mail''],
                  greeting_file = ''general_greeting.wav'', rings_before_answer = 3\<rparr>,
      blocked = \<lparr>actions = [''greeting''],
                 greeting_file = ''blocked_greeting.wav'', rings_before_answer = 0\<rparr>\<rparr>"

definition family :: caller where
  "family = [(''NAME'', Str ''MOM''), (''NMBR'', Str ''5551234567'')]"

definition stranger :: caller where
  "stranger = [(''NAME'', Str ''UNKNOWN''), (''NMBR'', Str ''5550001111'')]"

definition telemarketer :: caller where
  "telemarketer = [(''NAME'', Str ''V123''), (''NMBR'', Str ''5559998888'')]"

definition nameless :: caller where
  "nameless = [(''NAME'', Str ''O'')]"

text \<open>The line at rest, with the rings the modem is going to signal.\<close>

definition idle :: "producer_step list \<Rightarrow> ring_event engine" where
  "idle steps = \<lparr>world = \<lparr>flag = False, schedule = steps\<rparr>, trace = []\<rparr>"

text \<open>
  Variants of the line: a blacklist that explains its misses, a whitelist whose lookup
  fails, a blacklist with everybody on it, and a modem whose channel is already taken.
\<close>

definition verbose_screener :: "ring_event collaborators" where
  "verbose_screener =
     line\<lparr>is_blacklisted :=
            (\<lambda>caller w. (if map_of caller ''NMBR'' = Some (Str ''5559998888'')
                           then Inr (True, Str ''Telemarketer'')
                           else Inr (False, Str ''No matches found''), w))\<rparr>"

definition broken_screener :: "ring_event collaborators" where
  "broken_screener =
     line\<lparr>is_whitelisted := (\<lambda>caller w. (Inl (OSError ''unable to open database file''), w))\<rparr>"

definition strict_blacklist :: "ring_event collaborators" where
  "strict_blacklist =
     line\<lparr>is_blacklisted := (\<lambda>caller w. (Inr (True, Str ''Everybody''), w))\<rparr>"

definition busy_modem :: "ring_event collaborators" where
  "busy_modem = line\<lparr>pick_up := (\<lambda>w. (Inr False, w))\<rparr>"

text \<open>The line at rest with collaborators that record, nothing recorded yet.\<close>

definition tapped :: "producer_step list \<Rightarrow> (ring_event \<times> event list) engine" where
  "tapped steps = \<lparr>world = (\<lparr>flag = False, schedule = steps\<rparr>, []), trace = []\<rparr>"

text \<open>The line with the ring event set and left set.\<close>

definition stuck :: "ring_event engine" where
  "stuck = \<lparr>world = \<lparr>flag = True, schedule = []\<rparr>, trace = []\<rparr>"

text \<open>The same line with a modem that cannot play audio, in two ways.\<close>

definition busy_audio :: "ring_event collaborators" where
  "busy_audio = line\<lparr>play_audio := (\<lambda>file w. (Inl (RuntimeError ''modem not ready''), w))\<rparr>"

definition missing_audio :: "ring_event collaborators" where
  "missing_audio =
     line\<lparr>play_audio := (\<lambda>file w. (Inl (OSError ''No such file or directory''), w))\<rparr>"

section \<open>The trace of each step\<close>

declare ring_wait_loop.simps [simp del]

lemma trace_emit [simp]: "trace (emit ev s) = trace s @ [ev]"
  by (simp add: emit_def)

lemma world_emit [simp]: "world (emit ev s) = world s"
  by (simp add: emit_def)

lemma invoke_eq:
  "invoke ev f s = (r, s') \<longleftrightarrow> (f (world s) = (r, world s') \<and> trace s' = trace s @ [ev])"
  by (cases "f (world s)"; cases s') (auto simp: invoke_def)

lemma emitted_append [simp]: "trace s' = trace s @ evs \<Longrightarrow> emitted s s' = evs"
  by (simp add: emitted_def)

lemma count_list_0: "x \<notin> set xs \<Longrightarrow> count_list xs x = 0"
  by (induction xs) auto

text \<open>The ring-wait loop only waits and prints.\<close>

lemma ring_wait_loop_trace:
  "ring_wait_loop c rings k s = (r, s') \<Longrightarrow>
   \<exists>evs. trace s' = trace s @ evs \<and> (\<forall>e\<in>set evs. is_RingWait e \<or> is_Print e)"
proof (induction c rings k s arbitrary: r s' rule: ring_wait_loop.induct)
  case (1 c rings k s)
  show ?case
  proof (cases "k < rings")
    case False
    with "1.prems" show ?thesis
      by (simp add: ring_wait_loop.simps)
  next
    case True
    obtain b s1 where inv: "invoke (RingWait 7) (ring_event_wait c 7) s = (b, s1)"
      by (cases "invoke (RingWait 7) (ring_event_wait c 7) s")
    then have t1: "trace s1 = trace s @ [RingWait 7]"
      by (simp add: invoke_eq)
    show ?thesis
    proof (cases b)
      case False
      with True inv "1.prems" t1 show ?thesis
        by (auto simp: ring_wait_loop.simps [of c rings k s])
    next
      case b: True
      let ?s2 = "emit (Print '' > > > Ring count: {}'' [IntV (k + 1)]) s1"
      from True inv b "1.prems" have "ring_wait_loop c rings (k + 1) ?s2 = (r, s')"
        by (simp add: ring_wait_loop.simps [of c rings k s])
      from "1.IH" [OF True inv [symmetric] eqTrueI [OF b] this] obtain evs where
        "trace s' = trace ?s2 @ evs" "\<forall>e\<in>set evs. is_RingWait e \<or> is_Print e" by blast
      with t1 show ?thesis by simp
    qed
  qed
qed

text \<open>The actions never touch the hook themselves.\<close>

lemma answer_actions_trace:
  "answer_actions c acts greeting call_no caller s = (r, s') \<Longrightarrow>
   \<exists>evs. trace s' = trace s @ evs \<and>
     (\<forall>e\<in>set evs. is_Print e \<or> (is_answering e \<and> e \<noteq> PickUp \<and> e \<noteq> HangUp))"
  by (auto simp: answer_actions_def seq_def invoke_eq split: if_splits prod.splits sum.splits)

lemma except_RuntimeError_trace:
  "except_RuntimeError (r, s) = (r', s') \<Longrightarrow>
   \<exists>evs. trace s' = trace s @ evs \<and> (\<forall>e\<in>set evs. is_Print e)"
  by (auto simp: except_RuntimeError_def split: sum.splits if_splits)

lemma finally_hang_up_trace:
  "finally_hang_up c (r, s) = (r', s') \<Longrightarrow> trace s' = trace s @ [HangUp]"
  by (auto simp: finally_hang_up_def invoke_eq split: prod.splits sum.splits)

text \<open>
  The trace of \<open>answer_call\<close>: \<open>PickUp\<close> alone when the channel is not acquired,
  otherwise \<open>PickUp\<close>, actions and console lines, \<open>HangUp\<close>.
\<close>

lemma answer_call_trace:
  "answer_call c acts greeting call_no caller s = (r, s') \<Longrightarrow>
   (fst (pick_up c (world s)) \<noteq> Inr True \<and> trace s' = trace s @ [PickUp]) \<or>
   (fst (pick_up c (world s)) = Inr True \<and>
    (\<exists>evs. trace s' = trace s @ PickUp # evs @ [HangUp] \<and>
       (\<forall>e\<in>set evs. is_Print e \<or> (is_answering e \<and> e \<noteq> PickUp \<and> e \<noteq> HangUp))))"
proof (cases "pick_up c (world s)")
  case (Pair p w1)
  assume ac: "answer_call c acts greeting call_no caller s = (r, s')"
  show ?thesis
  proof (cases "p = Inr True")
    case False
    with Pair ac show ?thesis
      by (auto simp: answer_call_def invoke_def split: sum.splits bool.splits)
  next
    case True
    define s1 where "s1 = \<lparr>world = w1, trace = trace s @ [PickUp]\<rparr>"
    obtain r2 s2 where a: "answer_actions c acts greeting call_no caller s1 = (r2, s2)"
      by (cases "answer_actions c acts greeting call_no caller s1")
    obtain r3 s3 where e: "except_RuntimeError (r2, s2) = (r3, s3)"
      by (cases "except_RuntimeError (r2, s2)")
    from ac Pair True a e have f: "finally_hang_up c (r3, s3) = (r, s')"
      by (simp add: answer_call_def invoke_def s1_def)
    from answer_actions_trace [OF a] obtain evs where
      evs: "trace s2 = trace s1 @ evs"
        "\<forall>e\<in>set evs. is_Print e \<or> (is_answering e \<and> e \<noteq> PickUp \<and> e \<noteq> HangUp)" by blast
    from except_RuntimeError_trace [OF e] obtain evs3 where
      evs3: "trace s3 = trace s2 @ evs3" "\<forall>e\<in>set evs3. is_Print e" by blast
    have "trace s' = trace s @ PickUp # (evs @ evs3) @ [HangUp]"
      using finally_hang_up_trace [OF f] evs3 evs by (simp add: s1_def)
    moreover have
      "\<forall>e\<in>set (evs @ evs3). is_Print e \<or> (is_answering e \<and> e \<noteq> PickUp \<and> e \<noteq> HangUp)"
      using evs evs3 by auto
    ultimately show ?thesis using Pair True by auto
  qed
qed

lemma is_Print_other:
  "is_Print e \<Longrightarrow>
   \<not> is_VoiceMessagingMenu e \<and> \<not> is_RecordMessage e \<and> \<not> is_answering e \<and>
   \<not> is_LogCaller e \<and> \<not> is_RingWait e \<and> \<not> is_IsBlacklisted e"
  by (cases e) auto

lemma answer_call_acquired:
  "pick_up c (world s) = (Inr True, w1) \<Longrightarrow>
   answer_call c acts greeting call_no caller s =
     finally_hang_up c (except_RuntimeError
       (answer_actions c acts greeting call_no caller \<lparr>world = w1, trace = trace s @ [PickUp]\<rparr>))"
  by (simp add: answer_call_def invoke_def)

lemma answer_call_not_acquired:
  "fst (pick_up c (world s)) \<noteq> Inr True \<Longrightarrow>
   emitted s (snd (answer_call c acts greeting call_no caller s)) = [PickUp]"
  by (cases "pick_up c (world s)")
     (auto simp: answer_call_def invoke_def emitted_def split: sum.splits bool.splits)

text \<open>Which of the two message actions the \<^verbatim>\<open>if/elif\<close> of lines 215-222 reaches.\<close>

lemma answer_actions_messages:
  "answer_actions c acts greeting call_no caller s = (r, s') \<Longrightarrow>
   \<exists>evs. trace s' = trace s @ evs \<and> PickUp \<notin> set evs \<and> HangUp \<notin> set evs \<and>
     ((\<exists>e\<in>set evs. is_VoiceMessagingMenu e) \<longrightarrow>
        ''record_message'' \<notin> set acts \<and> ''voice_mail'' \<in> set acts) \<and>
     ((\<exists>e\<in>set evs. is_RecordMessage e) \<longrightarrow> ''record_message'' \<in> set acts) \<and>
     (''record_message'' \<in> set acts \<and>
      (''greeting'' \<in> set acts \<longrightarrow> fst (play_audio c greeting (world s)) = Inr ()) \<longrightarrow>
        count_list evs (RecordMessage call_no caller) = 1)"
  by (auto simp: answer_actions_def seq_def invoke_eq split: if_splits prod.splits sum.splits)

lemma answer_call_messages:
  assumes pick: "pick_up c (world s) = (Inr True, w1)"
  shows "\<exists>evs pr.
     emitted s (snd (answer_call c acts greeting call_no caller s)) = PickUp # evs @ pr @ [HangUp] \<and>
     (\<forall>e\<in>set pr. is_Print e) \<and>
     ((\<exists>e\<in>set evs. is_VoiceMessagingMenu e) \<longrightarrow>
        ''record_message'' \<notin> set acts \<and> ''voice_mail'' \<in> set acts) \<and>
     ((\<exists>e\<in>set evs. is_RecordMessage e) \<longrightarrow> ''record_message'' \<in> set acts) \<and>
     (''record_message'' \<in> set acts \<and>
      (''greeting'' \<in> set acts \<longrightarrow> fst (play_audio c greeting w1) = Inr ()) \<longrightarrow>
        count_list evs (RecordMessage call_no caller) = 1)"
proof -
  define s1 where "s1 = \<lparr>world = w1, trace = trace s @ [PickUp]\<rparr>"
  obtain r2 s2 where a: "answer_actions c acts greeting call_no caller s1 = (r2, s2)"
    by (cases "answer_actions c acts greeting call_no caller s1")
  obtain r3 s3 where e: "except_RuntimeError (r2, s2) = (r3, s3)"
    by (cases "except_RuntimeError (r2, s2)")
  obtain r4 s4 where f: "finally_hang_up c (r3, s3) = (r4, s4)"
    by (cases "finally_hang_up c (r3, s3)")
  have ac: "answer_call c acts greeting call_no caller s = (r4, s4)"
    using answer_call_acquired [OF pick] a e f by (simp add: s1_def)
  from answer_actions_messages [OF a] obtain evs where
    evs: "trace s2 = trace s1 @ evs"
      "(\<exists>e\<in>set evs. is_VoiceMessagingMenu e) \<longrightarrow>
         ''record_message'' \<notin> set acts \<and> ''voice_mail'' \<in> set acts"
      "(\<exists>e\<in>set evs. is_RecordMessage e) \<longrightarrow> ''record_message'' \<in> set acts"
      "''record_message'' \<in> set acts \<and>
       (''greeting'' \<in> set acts \<longrightarrow> fst (play_audio c greeting (world s1)) = Inr ()) \<longrightarrow>
         count_list evs (RecordMessage call_no caller) = 1"
    by blast
  from except_RuntimeError_trace [OF e] obtain pr where
    pr: "trace s3 = trace s2 @ pr" "\<forall>e\<in>set pr. is_Print e" by blast
  have "trace s4 = trace s @ PickUp # evs @ pr @ [HangUp]"
    using finally_hang_up_trace [OF f] pr evs by (simp add: s1_def)
  then have
    "emitted s (snd (answer_call c acts greeting call_no caller s)) = PickUp # evs @ pr @ [HangUp]"
    using ac by simp
  with evs pr show ?thesis by (auto simp: s1_def)
qed

text \<open>Unfolding the engine on a concrete call.\<close>

lemmas engine_defs =
  run_def process_call_def phone_number_def screen_caller_def check_whitelist_def
  check_blacklist_def default_screened_def screening_init_def log_and_answer_def gather_def
  answer_if_ok_def answer_call_def answer_actions_def except_RuntimeError_def
  finally_hang_up_def seq_def invoke_def emit_def emitted_def handle_caller_def

lemmas line_defs =
  line_def busy_audio_def missing_audio_def verbose_screener_def broken_screener_def
  strict_blacklist_def busy_modem_def settings_def idle_def tapped_def stuck_def event_wait_def
  family_def stranger_def telemarketer_def nameless_def

section \<open>The record of the collaborators agrees with the trace\<close>

lemma recording_sel [simp]:
  "handle_calls (recording c) wl =
     (case handle_calls c (fst wl) of (r, w') \<Rightarrow> (r, (w', snd wl @ [HandleCalls])))"
  "is_whitelisted (recording c) caller wl =
     (case is_whitelisted c caller (fst wl) of (r, w') \<Rightarrow> (r, (w', snd wl @ [IsWhitelisted caller])))"
  "is_blacklisted (recording c) caller wl =
     (case is_blacklisted c caller (fst wl) of (r, w') \<Rightarrow> (r, (w', snd wl @ [IsBlacklisted caller])))"
  "approved_blink (recording c) wl =
     (case approved_blink c (fst wl) of (r, w') \<Rightarrow> (r, (w', snd wl @ [ApprovedBlink])))"
  "blocked_blink (recording c) wl =
     (case blocked_blink c (fst wl) of (r, w') \<Rightarrow> (r, (w', snd wl @ [BlockedBlink])))"
  "log_caller (recording c) caller act why wl =
     (case log_caller c caller act why (fst wl) of
        (r, w') \<Rightarrow> (r, (w', snd wl @ [LogCaller caller act why])))"
  "ring_event_wait (recording c) timeout wl =
     (case ring_event_wait c timeout (fst wl) of (r, w') \<Rightarrow> (r, (w', snd wl @ [RingWait timeout])))"
  "pick_up (recording c) wl =
     (case pick_up c (fst wl) of (r, w') \<Rightarrow> (r, (w', snd wl @ [PickUp])))"
  "hang_up (recording c) wl =
     (case hang_up c (fst wl) of (r, w') \<Rightarrow> (r, (w', snd wl @ [HangUp])))"
  "play_audio (recording c) file wl =
     (case play_audio c file (fst wl) of (r, w') \<Rightarrow> (r, (w', snd wl @ [PlayAudio file])))"
  "record_message (recording c) call_no caller wl =
     (case record_message c call_no caller (fst wl) of
        (r, w') \<Rightarrow> (r, (w', snd wl @ [RecordMessage call_no caller])))"
  "voice_messaging_menu (recording c) call_no caller wl =
     (case voice_messaging_menu c call_no caller (fst wl) of
        (r, w') \<Rightarrow> (r, (w', snd wl @ [VoiceMessagingMenu call_no caller])))"
  by (simp_all add: recording_def)

lemma faithful_refl [simp]: "faithful s s"
  by (simp add: faithful_def)

lemma faithful_trans: "faithful s s1 \<Longrightarrow> faithful s1 s2 \<Longrightarrow> faithful s s2"
  by (fastforce simp: faithful_def)

lemma faithful_emit: "\<not> is_call ev \<Longrightarrow> faithful s (emit ev s)"
  by (simp add: faithful_def)

lemma faithful_then_emit: "faithful s s1 \<Longrightarrow> \<not> is_call ev \<Longrightarrow> faithful s (emit ev s1)"
  by (auto simp: faithful_def)

lemma faithful_received:
  "faithful s s' \<Longrightarrow> received s s' = filter is_call (emitted s s')"
  by (auto simp: faithful_def received_def emitted_def)

lemma faithful_answer_actions:
  "answer_actions (recording c) acts greeting call_no caller s = (r, s') \<Longrightarrow> faithful s s'"
  by (auto simp: answer_actions_def seq_def invoke_def emit_def faithful_def
        split: if_splits prod.splits sum.splits)

lemma faithful_except:
  "except_RuntimeError (r, s) = (r', s') \<Longrightarrow> faithful s s'"
  by (auto simp: except_RuntimeError_def faithful_def split: sum.splits if_splits)

lemma faithful_finally:
  "finally_hang_up (recording c) (r, s) = (r', s') \<Longrightarrow> faithful s s'"
  by (auto simp: finally_hang_up_def invoke_def faithful_def split: prod.splits sum.splits)

lemma faithful_answer_call:
  assumes "answer_call (recording c) acts greeting call_no caller s = (r, s')"
  shows "faithful s s'"
proof -
  obtain p s1 where pk: "invoke PickUp (pick_up (recording c)) s = (p, s1)"
    by (cases "invoke PickUp (pick_up (recording c)) s")
  then have f1: "faithful s s1"
    by (auto simp: invoke_def faithful_def split: prod.splits)
  show ?thesis
  proof (cases "p = Inr True")
    case False
    with assms pk have "s' = s1"
      by (auto simp: answer_call_def split: sum.splits bool.splits)
    with f1 show ?thesis by simp
  next
    case True
    obtain r2 s2 where a: "answer_actions (recording c) acts greeting call_no caller s1 = (r2, s2)"
      by (cases "answer_actions (recording c) acts greeting call_no caller s1")
    obtain r3 s3 where e: "except_RuntimeError (r2, s2) = (r3, s3)"
      by (cases "except_RuntimeError (r2, s2)")
    from assms pk True a e have f: "finally_hang_up (recording c) (r3, s3) = (r, s')"
      by (simp add: answer_call_def)
    from f1 faithful_answer_actions [OF a] faithful_except [OF e] faithful_finally [OF f]
    show ?thesis by (blast intro: faithful_trans)
  qed
qed

lemma faithful_ring_wait_loop:
  "ring_wait_loop (recording c) rings k s = (r, s') \<Longrightarrow> faithful s s'"
proof (induction "recording c" rings k s arbitrary: r s' rule: ring_wait_loop.induct)
  case (1 rings k s)
  show ?case
  proof (cases "k < rings")
    case False
    with "1.prems" show ?thesis
      by (simp add: ring_wait_loop.simps)
  next
    case True
    obtain b s1 where inv: "invoke (RingWait 7) (ring_event_wait (recording c) 7) s = (b, s1)"
      by (cases "invoke (RingWait 7) (ring_event_wait (recording c) 7) s")
    then have f1: "faithful s s1"
      by (auto simp: invoke_def faithful_def split: prod.splits)
    show ?thesis
    proof (cases b)
      case False
      with True inv "1.prems" have
        "s' = emit (Print '' > > > Ringing stopped: Caller hung up or callee answered'' []) s1"
        by (simp add: ring_wait_loop.simps [of _ rings k s])
      with f1 show ?thesis
        by (simp add: faithful_then_emit)
    next
      case b: True
      let ?s2 = "emit (Print '' > > > Ring count: {}'' [IntV (k + 1)]) s1"
      from True inv b "1.prems" have "ring_wait_loop (recording c) rings (k + 1) ?s2 = (r, s')"
        by (simp add: ring_wait_loop.simps [of _ rings k s])
      from "1.hyps" [OF True inv [symmetric] eqTrueI [OF b] this]
      have "faithful ?s2 s'" .
      moreover have "faithful s ?s2"
        using f1 by (simp add: faithful_then_emit)
      ultimately show ?thesis by (rule faithful_trans [rotated])
    qed
  qed
qed

lemma faithful_screen_caller:
  "screen_caller (recording c) mode caller s = (r, s') \<Longrightarrow> faithful s s'"
  by (auto simp: screen_caller_def check_whitelist_def check_blacklist_def default_screened_def
        seq_def invoke_def emit_def faithful_def split: if_splits prod.splits sum.splits)

lemma recording_fst:
  "fst (pick_up (recording c) wl) = fst (pick_up c (fst wl))"
  "fst (snd (pick_up (recording c) wl)) = snd (pick_up c (fst wl))"
  "fst (play_audio (recording c) file wl) = fst (play_audio c file (fst wl))"
  by (simp_all split: prod.splits)

lemma faithful_answer_if_ok:
  assumes "answer_if_ok (recording c) ns call_no caller s = (r, s')"
  shows "faithful s s'"
proof -
  obtain ok n s1 where l: "ring_wait_loop (recording c) (rings_before_answer ns) 1 s = ((ok, n), s1)"
    by (cases "ring_wait_loop (recording c) (rings_before_answer ns) 1 s") auto
  note f1 = faithful_ring_wait_loop [OF l]
  show ?thesis
  proof (cases "ok \<and> length (actions ns) > 0")
    case False
    with assms l have "s' = s1" by (auto simp: answer_if_ok_def)
    with f1 show ?thesis by simp
  next
    case True
    with assms l have
      "answer_call (recording c) (actions ns) (greeting_file ns) call_no caller s1 = (r, s')"
      by (auto simp: answer_if_ok_def)
    from f1 faithful_answer_call [OF this] show ?thesis by (rule faithful_trans)
  qed
qed

lemma faithful_log_and_answer:
  assumes "log_and_answer (recording c) cfg caller p v s = (r, s')"
  shows "faithful s s'"
proof -
  obtain r1 s1 where lg: "invoke (LogCaller caller (action v) (reason v))
      (log_caller (recording c) caller (action v) (reason v)) s = (r1, s1)"
    by (cases "invoke (LogCaller caller (action v) (reason v))
      (log_caller (recording c) caller (action v) (reason v)) s")
  then have f1: "faithful s s1"
    by (auto simp: invoke_def faithful_def split: prod.splits)
  show ?thesis
  proof (cases r1)
    case (Inl e)
    with assms lg have "s' = s1" by (simp add: log_and_answer_def seq_def)
    with f1 show ?thesis by simp
  next
    case (Inr call_no)
    let ?s2 = "emit (Print ''--> {} {}: {}'' [Str p, Str (action v), reason v]) s1"
    have f2: "faithful s ?s2" using f1 by (simp add: faithful_then_emit)
    show ?thesis
    proof (cases "gather cfg v")
      case (Inl e)
      with assms lg Inr have "s' = ?s2" by (simp add: log_and_answer_def seq_def)
      with f2 show ?thesis by simp
    next
      case g: (Inr ns)
      with assms lg Inr have "answer_if_ok (recording c) ns call_no caller ?s2 = (r, s')"
        by (simp add: log_and_answer_def seq_def)
      from f2 faithful_answer_if_ok [OF this] show ?thesis by (rule faithful_trans)
    qed
  qed
qed

lemma faithful_process_call:
  assumes "process_call (recording c) cfg caller s = (r, s')"
  shows "faithful s s'"
proof (cases "phone_number caller")
  case (Inl e)
  with assms show ?thesis by (simp add: process_call_def)
next
  case (Inr p)
  let ?s0 = "emit (Print ''Incoming call from {}'' [Str p]) s"
  have f0: "faithful s ?s0" by (simp add: faithful_emit)
  obtain r1 s1 where sc: "screen_caller (recording c) (screening_mode cfg) caller ?s0 = (r1, s1)"
    by (cases "screen_caller (recording c) (screening_mode cfg) caller ?s0")
  from f0 faithful_screen_caller [OF sc] have f1: "faithful s s1" by (rule faithful_trans)
  show ?thesis
  proof (cases r1)
    case (Inl e)
    with assms Inr sc have "s' = s1" by (simp add: process_call_def seq_def)
    with f1 show ?thesis by simp
  next
    case v: (Inr v)
    with assms Inr sc have "log_and_answer (recording c) cfg caller p v s1 = (r, s')"
      by (simp add: process_call_def seq_def)
    from f1 faithful_log_and_answer [OF this] show ?thesis by (rule faithful_trans)
  qed
qed

lemma count_list_filter: "P x \<Longrightarrow> count_list (filter P xs) x = count_list xs x"
  by (induction xs) auto

lemma is_Print_not_call: "is_Print e \<Longrightarrow> \<not> is_call e"
  by (cases e) auto

lemma message_is_call: "is_VoiceMessagingMenu e \<or> is_RecordMessage e \<Longrightarrow> is_call e"
  by (cases e) auto

section \<open>Properties of the engine\<close>

text \<open>
  C2. Run against collaborators that record the calls they receive, \<open>answer_call\<close> makes
  the modem receive \<open>pick_up\<close> once, and \<open>hang_up\<close> exactly once and as the last call
  when \<open>pick_up\<close> returned true, not at all when it returned false or raised; whatever
  the actions do (all succeed, one raises any exception, none is in the plan). On the
  state: with the channel acquired, \<open>answer_call\<close> ends in the world that \<open>hang_up\<close>
  left when called on the world the actions left, and raises what \<open>hang_up\<close> raised, if
  it did; with the channel not acquired it ends in the world \<open>pick_up\<close> left.
\<close>

theorem answer_call_releases_once:
  assumes "answer_call (recording c) acts greeting call_no caller s = (r, s')"
  shows
    "count_list (received s s') HangUp =
       (if fst (pick_up c (fst (world s))) = Inr True then 1 else 0)
     \<and> count_list (received s s') PickUp = 1
     \<and> (fst (pick_up c (fst (world s))) = Inr True \<longrightarrow> last (received s s') = HangUp)
     \<and> (\<forall>w1. pick_up c (world t) = (Inr True, w1) \<longrightarrow>
           (case except_RuntimeError
                   (answer_actions c acts greeting call_no caller
                      \<lparr>world = w1, trace = trace t @ [PickUp]\<rparr>) of
              (r2, t2) \<Rightarrow>
                answer_call c acts greeting call_no caller t =
                  (case hang_up c (world t2) of
                     (Inl e, w3) \<Rightarrow> (Inl e, \<lparr>world = w3, trace = trace t2 @ [HangUp]\<rparr>)
                   | (Inr u, w3) \<Rightarrow> (r2, \<lparr>world = w3, trace = trace t2 @ [HangUp]\<rparr>))))
     \<and> (\<forall>p w1. pick_up c (world t) = (p, w1) \<and> p \<noteq> Inr True \<longrightarrow>
           answer_call c acts greeting call_no caller t =
             (case p of Inl e \<Rightarrow> Inl e | Inr b \<Rightarrow> Inr (),
              \<lparr>world = w1, trace = trace t @ [PickUp]\<rparr>))"
proof (intro conjI allI impI)
  note rec = faithful_received [OF faithful_answer_call [OF assms]]
  have shape: "(fst (pick_up c (fst (world s))) \<noteq> Inr True \<and> emitted s s' = [PickUp]) \<or>
    (fst (pick_up c (fst (world s))) = Inr True \<and>
     (\<exists>evs. emitted s s' = PickUp # evs @ [HangUp] \<and> HangUp \<notin> set evs \<and> PickUp \<notin> set evs))"
    using answer_call_trace [OF assms, unfolded recording_fst]
  proof (elim disjE conjE exE)
    assume "fst (pick_up c (fst (world s))) \<noteq> Inr True" "trace s' = trace s @ [PickUp]"
    then show ?thesis by (simp add: emitted_def)
  next
    fix evs
    assume p: "fst (pick_up c (fst (world s))) = Inr True"
      and t: "trace s' = trace s @ PickUp # evs @ [HangUp]"
      and e: "\<forall>e\<in>set evs. is_Print e \<or> (is_answering e \<and> e \<noteq> PickUp \<and> e \<noteq> HangUp)"
    from e have "HangUp \<notin> set evs" "PickUp \<notin> set evs" by auto
    with p t show ?thesis by (simp add: emitted_def)
  qed
  then have abc: "count_list (received s s') HangUp =
       (if fst (pick_up c (fst (world s))) = Inr True then 1 else 0)
     \<and> count_list (received s s') PickUp = 1
     \<and> (fst (pick_up c (fst (world s))) = Inr True \<longrightarrow> last (received s s') = HangUp)"
  proof (elim disjE conjE exE)
    assume "fst (pick_up c (fst (world s))) \<noteq> Inr True" "emitted s s' = [PickUp]"
    then show ?thesis by (simp add: rec)
  next
    fix evs
    assume p: "fst (pick_up c (fst (world s))) = Inr True"
      and e: "emitted s s' = PickUp # evs @ [HangUp]"
      and n: "HangUp \<notin> set evs" "PickUp \<notin> set evs"
    from n have "count_list (filter is_call evs) HangUp = 0"
      "count_list (filter is_call evs) PickUp = 0"
      by (simp_all add: count_list_0)
    with p e show ?thesis by (simp add: rec)
  qed
  from abc show "count_list (received s s') HangUp =
       (if fst (pick_up c (fst (world s))) = Inr True then 1 else 0)" by blast
  from abc show "count_list (received s s') PickUp = 1" by blast
  assume "fst (pick_up c (fst (world s))) = Inr True"
  with abc show "last (received s s') = HangUp" by blast
next
  fix w1
  assume "pick_up c (world t) = (Inr True, w1)"
  then show "case except_RuntimeError
                   (answer_actions c acts greeting call_no caller
                      \<lparr>world = w1, trace = trace t @ [PickUp]\<rparr>) of
              (r2, t2) \<Rightarrow>
                answer_call c acts greeting call_no caller t =
                  (case hang_up c (world t2) of
                     (Inl e, w3) \<Rightarrow> (Inl e, \<lparr>world = w3, trace = trace t2 @ [HangUp]\<rparr>)
                   | (Inr u, w3) \<Rightarrow> (r2, \<lparr>world = w3, trace = trace t2 @ [HangUp]\<rparr>))"
    by (auto simp: answer_call_acquired finally_hang_up_def invoke_def
          split: prod.splits sum.splits)
next
  fix p w1
  assume "pick_up c (world t) = (p, w1) \<and> p \<noteq> Inr True"
  then show "answer_call c acts greeting call_no caller t =
             (case p of Inl e \<Rightarrow> Inl e | Inr b \<Rightarrow> Inr (),
              \<lparr>world = w1, trace = trace t @ [PickUp]\<rparr>)"
    by (auto simp: answer_call_def invoke_def split: sum.splits bool.splits)
qed

text \<open>
  A greeting on the concrete line: the modem receives \<open>pick_up\<close>, \<open>play_audio\<close>,
  \<open>hang_up\<close>.
\<close>

theorem answer_call_releases_once_witness:
  "answer_call (recording line) [''greeting''] ''general_greeting.wav'' (IntV 1) family (tapped []) =
     (Inr (),
      \<lparr>world = (\<lparr>flag = False, schedule = []\<rparr>,
                [PickUp, PlayAudio ''general_greeting.wav'', HangUp]),
       trace = [PickUp, Print ''>> Playing greeting...'' [],
                PlayAudio ''general_greeting.wav'', HangUp]\<rparr>)
   \<and> fst (pick_up line (fst (world (tapped [])))) = Inr True
   \<and> count_list (received (tapped [])
        \<lparr>world = (\<lparr>flag = False, schedule = []\<rparr>,
                  [PickUp, PlayAudio ''general_greeting.wav'', HangUp]),
         trace = [PickUp, Print ''>> Playing greeting...'' [],
                  PlayAudio ''general_greeting.wav'', HangUp]\<rparr>) HangUp = 1
   \<and> pick_up line (world (idle [])) = (Inr True, world (idle []))
   \<and> answer_call line [''greeting''] ''general_greeting.wav'' (IntV 1) family (idle []) =
       (Inr (),
        \<lparr>world = \<lparr>flag = False, schedule = []\<rparr>,
         trace = [PickUp, Print ''>> Playing greeting...'' [],
                  PlayAudio ''general_greeting.wav'', HangUp]\<rparr>)"
proof -
  have a: "answer_call (recording line) [''greeting''] ''general_greeting.wav'' (IntV 1) family
      (tapped []) =
     (Inr (),
      \<lparr>world = (\<lparr>flag = False, schedule = []\<rparr>,
                [PickUp, PlayAudio ''general_greeting.wav'', HangUp]),
       trace = [PickUp, Print ''>> Playing greeting...'' [],
                PlayAudio ''general_greeting.wav'', HangUp]\<rparr>)"
    by (simp add: engine_defs line_defs)
  have p: "pick_up line (world (idle [])) = (Inr True, world (idle []))"
    by (simp add: line_defs)
  show ?thesis
    using answer_call_releases_once [OF a, where t = "idle []"] a p
    by (simp add: engine_defs line_defs received_def)
qed

text \<open>
  C6. Run against collaborators that record the calls they receive, one \<open>answer_call\<close>
  never makes the voice mail receive both \<open>record_message\<close> and
  \<open>voice_messaging_menu\<close>. With \<^verbatim>\<open>record_message\<close> in the plan the menu is never
  entered, so the menu is entered only with \<^verbatim>\<open>voice_mail\<close> in the plan and
  \<^verbatim>\<open>record_message\<close> absent from it. With \<^verbatim>\<open>record_message\<close> in the plan, the
  channel acquired and the greeting (if any) played, \<open>record_message\<close> is received
  exactly once, and the actions end with what \<open>record_message\<close> returned, in the world
  it left.
\<close>

theorem record_message_excludes_voice_mail:
  assumes "answer_call (recording c) acts greeting call_no caller s = (r, s')"
  shows
    "(''record_message'' \<in> set acts \<longrightarrow>
        \<not> (\<exists>e\<in>set (received s s'). is_VoiceMessagingMenu e))
     \<and> \<not> ((\<exists>e\<in>set (received s s'). is_RecordMessage e)
          \<and> (\<exists>e\<in>set (received s s'). is_VoiceMessagingMenu e))
     \<and> ((\<exists>e\<in>set (received s s'). is_VoiceMessagingMenu e) \<longrightarrow>
          ''voice_mail'' \<in> set acts \<and> ''record_message'' \<notin> set acts)
     \<and> (''record_message'' \<in> set acts
          \<and> fst (pick_up c (fst (world s))) = Inr True
          \<and> (''greeting'' \<in> set acts \<longrightarrow>
               fst (play_audio c greeting (snd (pick_up c (fst (world s))))) = Inr ())
        \<longrightarrow> count_list (received s s') (RecordMessage call_no caller) = 1)
     \<and> (''record_message'' \<in> set acts \<and> ''greeting'' \<notin> set acts \<longrightarrow>
          answer_actions c acts greeting call_no caller t =
            (case record_message c call_no caller (world t) of
               (m, w) \<Rightarrow>
                 (m, \<lparr>world = w,
                      trace = trace t @ [Print ''>> Recording message...'' [],
                                         RecordMessage call_no caller]\<rparr>)))
     \<and> (\<forall>wg. ''record_message'' \<in> set acts \<and> ''greeting'' \<in> set acts
              \<and> play_audio c greeting (world t) = (Inr (), wg) \<longrightarrow>
          answer_actions c acts greeting call_no caller t =
            (case record_message c call_no caller wg of
               (m, w) \<Rightarrow>
                 (m, \<lparr>world = w,
                      trace = trace t @ [Print ''>> Playing greeting...'' [], PlayAudio greeting,
                                         Print ''>> Recording message...'' [],
                                         RecordMessage call_no caller]\<rparr>)))"
proof -
  note rec = faithful_received [OF faithful_answer_call [OF assms]]
  have recorded: "(''record_message'' \<in> set acts \<longrightarrow>
        \<not> (\<exists>e\<in>set (received s s'). is_VoiceMessagingMenu e))
     \<and> \<not> ((\<exists>e\<in>set (received s s'). is_RecordMessage e)
          \<and> (\<exists>e\<in>set (received s s'). is_VoiceMessagingMenu e))
     \<and> ((\<exists>e\<in>set (received s s'). is_VoiceMessagingMenu e) \<longrightarrow>
          ''voice_mail'' \<in> set acts \<and> ''record_message'' \<notin> set acts)
     \<and> (''record_message'' \<in> set acts
          \<and> fst (pick_up c (fst (world s))) = Inr True
          \<and> (''greeting'' \<in> set acts \<longrightarrow>
               fst (play_audio c greeting (snd (pick_up c (fst (world s))))) = Inr ())
        \<longrightarrow> count_list (received s s') (RecordMessage call_no caller) = 1)"
  proof (cases "fst (pick_up c (fst (world s))) = Inr True")
    case False
    then have "fst (pick_up (recording c) (world s)) \<noteq> Inr True"
      unfolding recording_fst .
    from answer_call_not_acquired [OF this, where acts = acts and greeting = greeting
        and call_no = call_no and caller = caller] assms
    have "emitted s s' = [PickUp]" by simp
    with False show ?thesis by (simp add: rec)
  next
    case True
    then have "fst (pick_up (recording c) (world s)) = Inr True"
      unfolding recording_fst .
    then obtain w1 where pick: "pick_up (recording c) (world s) = (Inr True, w1)"
      by (cases "pick_up (recording c) (world s)") auto
    then have w1: "fst w1 = snd (pick_up c (fst (world s)))"
      using recording_fst(2) [of c "world s"] by simp
    from answer_call_messages [OF pick, where acts = acts and greeting = greeting
        and call_no = call_no and caller = caller] assms
    obtain evs pr where
      em: "emitted s s' = PickUp # evs @ pr @ [HangUp]"
      and pr: "\<forall>e\<in>set pr. is_Print e"
      and vm: "(\<exists>e\<in>set evs. is_VoiceMessagingMenu e) \<longrightarrow>
           ''record_message'' \<notin> set acts \<and> ''voice_mail'' \<in> set acts"
      and rm: "(\<exists>e\<in>set evs. is_RecordMessage e) \<longrightarrow> ''record_message'' \<in> set acts"
      and one: "''record_message'' \<in> set acts \<and>
        (''greeting'' \<in> set acts \<longrightarrow> fst (play_audio (recording c) greeting w1) = Inr ()) \<longrightarrow>
          count_list evs (RecordMessage call_no caller) = 1"
      by auto
    from pr is_Print_not_call have fpr: "filter is_call pr = []"
      by (auto simp: filter_empty_conv)
    have r: "received s s' = PickUp # filter is_call evs @ [HangUp]"
      by (simp add: rec em fpr)
    have ex: "\<And>P. (\<And>e. P e \<Longrightarrow> is_call e) \<Longrightarrow>
        (\<exists>e\<in>set (filter is_call evs). P e) = (\<exists>e\<in>set evs. P e)"
      by auto
    have v: "(\<exists>e\<in>set (received s s'). is_VoiceMessagingMenu e) =
        (\<exists>e\<in>set evs. is_VoiceMessagingMenu e)"
      unfolding r using message_is_call by auto
    have m: "(\<exists>e\<in>set (received s s'). is_RecordMessage e) =
        (\<exists>e\<in>set evs. is_RecordMessage e)"
      unfolding r using message_is_call by auto
    have cnt: "count_list (received s s') (RecordMessage call_no caller) =
        count_list evs (RecordMessage call_no caller)"
      unfolding r by (simp add: count_list_filter)
    have pa: "fst (play_audio (recording c) greeting w1) =
        fst (play_audio c greeting (snd (pick_up c (fst (world s)))))"
      unfolding recording_fst w1 by (rule refl)
    note one' = one [unfolded pa]
    show ?thesis
      unfolding v m cnt using vm rm one' True by auto
  qed
  have direct: "''record_message'' \<in> set acts \<and> ''greeting'' \<notin> set acts \<longrightarrow>
          answer_actions c acts greeting call_no caller t =
            (case record_message c call_no caller (world t) of
               (m, w) \<Rightarrow>
                 (m, \<lparr>world = w,
                      trace = trace t @ [Print ''>> Recording message...'' [],
                                         RecordMessage call_no caller]\<rparr>))"
    by (simp add: answer_actions_def seq_def invoke_def emit_def split: prod.splits)
  have greeted: "\<forall>wg. ''record_message'' \<in> set acts \<and> ''greeting'' \<in> set acts
              \<and> play_audio c greeting (world t) = (Inr (), wg) \<longrightarrow>
          answer_actions c acts greeting call_no caller t =
            (case record_message c call_no caller wg of
               (m, w) \<Rightarrow>
                 (m, \<lparr>world = w,
                      trace = trace t @ [Print ''>> Playing greeting...'' [], PlayAudio greeting,
                                         Print ''>> Recording message...'' [],
                                         RecordMessage call_no caller]\<rparr>))"
    by (simp add: answer_actions_def seq_def invoke_def emit_def split: prod.splits)
  from recorded direct greeted show ?thesis by blast
qed

text \<open>
  The plan of a screened caller holds the greeting and both message actions: the voice
  mail receives \<open>record_message\<close> and nothing else.
\<close>

theorem record_message_excludes_voice_mail_witness:
  "answer_call (recording line) (actions (screened settings)) ''general_greeting.wav'' (IntV 1)
     stranger (tapped []) =
     (Inr (),
      \<lparr>world = (\<lparr>flag = False, schedule = []\<rparr>,
                [PickUp, PlayAudio ''general_greeting.wav'', RecordMessage (IntV 1) stranger,
                 HangUp]),
       trace = [PickUp, Print ''>> Playing greeting...'' [],
                PlayAudio ''general_greeting.wav'', Print ''>> Recording message...'' [],
                RecordMessage (IntV 1) stranger, HangUp]\<rparr>)
   \<and> ''record_message'' \<in> set (actions (screened settings))
   \<and> ''voice_mail'' \<in> set (actions (screened settings))
   \<and> ''greeting'' \<in> set (actions (screened settings))
   \<and> fst (pick_up line (fst (world (tapped [])))) = Inr True
   \<and> fst (play_audio line ''general_greeting.wav''
            (snd (pick_up line (fst (world (tapped [])))))) = Inr ()
   \<and> received (tapped [])
        \<lparr>world = (\<lparr>flag = False, schedule = []\<rparr>,
                  [PickUp, PlayAudio ''general_greeting.wav'', RecordMessage (IntV 1) stranger,
                   HangUp]),
         trace = [PickUp, Print ''>> Playing greeting...'' [],
                  PlayAudio ''general_greeting.wav'', Print ''>> Recording message...'' [],
                  RecordMessage (IntV 1) stranger, HangUp]\<rparr> =
       [PickUp, PlayAudio ''general_greeting.wav'', RecordMessage (IntV 1) stranger, HangUp]
   \<and> play_audio line ''general_greeting.wav'' (world (idle [])) = (Inr (), world (idle []))
   \<and> answer_actions line (actions (screened settings)) ''general_greeting.wav'' (IntV 1)
        stranger (idle []) =
       (Inr (),
        \<lparr>world = \<lparr>flag = False, schedule = []\<rparr>,
         trace = [Print ''>> Playing greeting...'' [], PlayAudio ''general_greeting.wav'',
                  Print ''>> Recording message...'' [], RecordMessage (IntV 1) stranger]\<rparr>)"
proof -
  have a: "answer_call (recording line) (actions (screened settings)) ''general_greeting.wav''
      (IntV 1) stranger (tapped []) =
     (Inr (),
      \<lparr>world = (\<lparr>flag = False, schedule = []\<rparr>,
                [PickUp, PlayAudio ''general_greeting.wav'', RecordMessage (IntV 1) stranger,
                 HangUp]),
       trace = [PickUp, Print ''>> Playing greeting...'' [],
                PlayAudio ''general_greeting.wav'', Print ''>> Recording message...'' [],
                RecordMessage (IntV 1) stranger, HangUp]\<rparr>)"
    by (simp add: engine_defs line_defs)
  show ?thesis
    using record_message_excludes_voice_mail [OF a, where t = "idle []"] a
    by (simp add: engine_defs line_defs received_def)
qed

text \<open>
  C9, as the code has it. Line 224 catches instances of \<^verbatim>\<open>RuntimeError\<close> only. With
  the channel acquired: when the actions raise a \<^verbatim>\<open>RuntimeError\<close>, \<open>answer_call\<close>
  prints it, calls \<open>hang_up\<close> and ends the way \<open>hang_up\<close> ends, so the action's
  exception does not leave \<open>answer_call\<close>; when the actions raise any other exception,
  \<open>answer_call\<close> prints nothing, calls \<open>hang_up\<close>, and raises that exception (or the
  one \<open>hang_up\<close> raised). In both cases a greeting that raises hands its world straight
  to \<open>hang_up\<close>: the message actions are not called.
\<close>

theorem answer_call_contains_RuntimeError:
  assumes pick: "pick_up c (world s) = (Inr True, w1)"
  shows
    "(\<forall>e s2. answer_actions c acts greeting call_no caller
               \<lparr>world = w1, trace = trace s @ [PickUp]\<rparr> = (Inl e, s2) \<and> is_RuntimeError e \<longrightarrow>
        answer_call c acts greeting call_no caller s =
          (case hang_up c (world s2) of
             (h, w3) \<Rightarrow>
               (h, \<lparr>world = w3,
                    trace = trace s2 @
                      [PrintExn ''** Error handling a blocked caller: {}'' e, HangUp]\<rparr>)))
     \<and> (\<forall>e s2. answer_actions c acts greeting call_no caller
                 \<lparr>world = w1, trace = trace s @ [PickUp]\<rparr> = (Inl e, s2)
               \<and> \<not> is_RuntimeError e \<longrightarrow>
          answer_call c acts greeting call_no caller s =
            (case hang_up c (world s2) of
               (Inl e', w3) \<Rightarrow> (Inl e', \<lparr>world = w3, trace = trace s2 @ [HangUp]\<rparr>)
             | (Inr u, w3) \<Rightarrow> (Inl e, \<lparr>world = w3, trace = trace s2 @ [HangUp]\<rparr>)))
     \<and> (\<forall>e w2. ''greeting'' \<in> set acts \<and> play_audio c greeting w1 = (Inl e, w2)
                 \<and> is_RuntimeError e \<longrightarrow>
          answer_call c acts greeting call_no caller s =
            (case hang_up c w2 of
               (h, w3) \<Rightarrow>
                 (h, \<lparr>world = w3,
                      trace = trace s @
                        [PickUp, Print ''>> Playing greeting...'' [], PlayAudio greeting,
                         PrintExn ''** Error handling a blocked caller: {}'' e, HangUp]\<rparr>)))
     \<and> (\<forall>e w2. ''greeting'' \<in> set acts \<and> play_audio c greeting w1 = (Inl e, w2)
                 \<and> \<not> is_RuntimeError e \<longrightarrow>
          answer_call c acts greeting call_no caller s =
            (case hang_up c w2 of
               (Inl e', w3) \<Rightarrow>
                 (Inl e', \<lparr>world = w3,
                           trace = trace s @
                             [PickUp, Print ''>> Playing greeting...'' [], PlayAudio greeting,
                              HangUp]\<rparr>)
             | (Inr u, w3) \<Rightarrow>
                 (Inl e, \<lparr>world = w3,
                          trace = trace s @
                            [PickUp, Print ''>> Playing greeting...'' [], PlayAudio greeting,
                             HangUp]\<rparr>)))"
proof (intro conjI allI impI)
  fix e s2
  assume "answer_actions c acts greeting call_no caller
            \<lparr>world = w1, trace = trace s @ [PickUp]\<rparr> = (Inl e, s2) \<and> is_RuntimeError e"
  then show "answer_call c acts greeting call_no caller s =
      (case hang_up c (world s2) of
         (h, w3) \<Rightarrow>
           (h, \<lparr>world = w3,
                trace = trace s2 @
                  [PrintExn ''** Error handling a blocked caller: {}'' e, HangUp]\<rparr>))"
    by (cases "hang_up c (world s2)")
       (auto simp: answer_call_acquired [OF pick] except_RuntimeError_def finally_hang_up_def
          invoke_def split: sum.splits)
next
  fix e s2
  assume "answer_actions c acts greeting call_no caller
            \<lparr>world = w1, trace = trace s @ [PickUp]\<rparr> = (Inl e, s2) \<and> \<not> is_RuntimeError e"
  then show "answer_call c acts greeting call_no caller s =
      (case hang_up c (world s2) of
         (Inl e', w3) \<Rightarrow> (Inl e', \<lparr>world = w3, trace = trace s2 @ [HangUp]\<rparr>)
       | (Inr u, w3) \<Rightarrow> (Inl e, \<lparr>world = w3, trace = trace s2 @ [HangUp]\<rparr>))"
    by (cases "hang_up c (world s2)")
       (auto simp: answer_call_acquired [OF pick] except_RuntimeError_def finally_hang_up_def
          invoke_def split: sum.splits)
next
  fix e w2
  assume "''greeting'' \<in> set acts \<and> play_audio c greeting w1 = (Inl e, w2) \<and> is_RuntimeError e"
  then show "answer_call c acts greeting call_no caller s =
      (case hang_up c w2 of
         (h, w3) \<Rightarrow>
           (h, \<lparr>world = w3,
                trace = trace s @
                  [PickUp, Print ''>> Playing greeting...'' [], PlayAudio greeting,
                   PrintExn ''** Error handling a blocked caller: {}'' e, HangUp]\<rparr>))"
    by (cases "hang_up c w2")
       (auto simp: answer_call_acquired [OF pick] answer_actions_def seq_def
          except_RuntimeError_def finally_hang_up_def invoke_def emit_def
          split: sum.splits)
next
  fix e w2
  assume "''greeting'' \<in> set acts \<and> play_audio c greeting w1 = (Inl e, w2)
      \<and> \<not> is_RuntimeError e"
  then show "answer_call c acts greeting call_no caller s =
      (case hang_up c w2 of
         (Inl e', w3) \<Rightarrow>
           (Inl e', \<lparr>world = w3,
                     trace = trace s @
                       [PickUp, Print ''>> Playing greeting...'' [], PlayAudio greeting,
                        HangUp]\<rparr>)
       | (Inr u, w3) \<Rightarrow>
           (Inl e, \<lparr>world = w3,
                    trace = trace s @
                      [PickUp, Print ''>> Playing greeting...'' [], PlayAudio greeting,
                       HangUp]\<rparr>))"
    by (cases "hang_up c w2")
       (auto simp: answer_call_acquired [OF pick] answer_actions_def seq_def
          except_RuntimeError_def finally_hang_up_def invoke_def emit_def
          split: sum.splits)
qed

text \<open>
  On the concrete line a greeting that raises \<^verbatim>\<open>RuntimeError\<close> is printed, the hook is
  released, \<open>answer_call\<close> returns, and the loop goes on to log the next caller; a
  greeting that raises \<^verbatim>\<open>OSError\<close> leaves \<open>answer_call\<close> raised, after \<open>hang_up\<close>.
\<close>

theorem answer_call_contains_RuntimeError_witness:
  "pick_up busy_audio (world (idle [Pulse])) = (Inr True, world (idle [Pulse]))
   \<and> ''greeting'' \<in> set (actions (blocked settings))
   \<and> play_audio busy_audio ''blocked_greeting.wav'' (world (idle [Pulse])) =
       (Inl (RuntimeError ''modem not ready''), world (idle [Pulse]))
   \<and> is_RuntimeError (RuntimeError ''modem not ready'')
   \<and> answer_call busy_audio (actions (blocked settings)) ''blocked_greeting.wav''
        (IntV 1) telemarketer (idle [Pulse]) =
       (Inr (),
        \<lparr>world = \<lparr>flag = False, schedule = [Pulse]\<rparr>,
         trace = [PickUp, Print ''>> Playing greeting...'' [], PlayAudio ''blocked_greeting.wav'',
                  PrintExn ''** Error handling a blocked caller: {}''
                    (RuntimeError ''modem not ready''),
                  HangUp]\<rparr>)
   \<and> fst (run_loop busy_audio settings [telemarketer, stranger] (idle [Pulse])) = Blocked
   \<and> LogCaller stranger ''Screened'' NoneV
       \<in> set (trace (snd (snd (run_loop busy_audio settings [telemarketer, stranger]
                                  (idle [Pulse])))))
   \<and> pick_up missing_audio (world (idle [Pulse])) = (Inr True, world (idle [Pulse]))
   \<and> play_audio missing_audio ''blocked_greeting.wav'' (world (idle [Pulse])) =
       (Inl (OSError ''No such file or directory''), world (idle [Pulse]))
   \<and> \<not> is_RuntimeError (OSError ''No such file or directory'')
   \<and> answer_call missing_audio (actions (blocked settings)) ''blocked_greeting.wav''
        (IntV 1) telemarketer (idle [Pulse]) =
       (Inl (OSError ''No such file or directory''),
        \<lparr>world = \<lparr>flag = False, schedule = [Pulse]\<rparr>,
         trace = [PickUp, Print ''>> Playing greeting...'' [], PlayAudio ''blocked_greeting.wav'',
                  HangUp]\<rparr>)"
proof -
  have p: "pick_up busy_audio (world (idle [Pulse])) = (Inr True, world (idle [Pulse]))"
    "pick_up missing_audio (world (idle [Pulse])) = (Inr True, world (idle [Pulse]))"
    by (simp_all add: line_defs)
  show ?thesis
    using answer_call_contains_RuntimeError
      [OF p(1), where acts = "actions (blocked settings)"
         and greeting = "''blocked_greeting.wav''" and call_no = "IntV 1"
         and caller = telemarketer]
      answer_call_contains_RuntimeError
      [OF p(2), where acts = "actions (blocked settings)"
         and greeting = "''blocked_greeting.wav''" and call_no = "IntV 1"
         and caller = telemarketer]
    by (simp add: engine_defs line_defs ring_wait_loop.simps)
qed

text \<open>
  C9 as stated fails: a greeting file that cannot be opened raises \<^verbatim>\<open>OSError\<close>, which
  line 224 does not catch. The exception leaves \<open>answer_call\<close> (after \<open>hang_up\<close>) and
  the loop returns 1 with the next caller still in the queue.
\<close>

theorem answer_call_propagates_OSError:
  "fst (play_audio missing_audio ''blocked_greeting.wav'' (world (idle [Pulse]))) =
     Inl (OSError ''No such file or directory'')
   \<and> fst (answer_call missing_audio (actions (blocked settings)) ''blocked_greeting.wav''
            (IntV 1) telemarketer (idle [Pulse])) = Inl (OSError ''No such file or directory'')
   \<and> emitted (idle [Pulse])
        (snd (answer_call missing_audio (actions (blocked settings)) ''blocked_greeting.wav''
                (IntV 1) telemarketer (idle [Pulse]))) =
       [PickUp, Print ''>> Playing greeting...'' [], PlayAudio ''blocked_greeting.wav'', HangUp]
   \<and> fst (run_loop missing_audio settings [telemarketer, stranger] (idle [Pulse])) = Returned 1
   \<and> fst (snd (run_loop missing_audio settings [telemarketer, stranger] (idle [Pulse]))) =
       [stranger]"
  by (simp add: engine_defs line_defs ring_wait_loop.simps)

lemma ring_wait_loop_signals:
  "k \<le> rings \<Longrightarrow> ring_wait_loop c rings k s = ((ok, n), s') \<Longrightarrow>
   ok = list_all id (wait_results c (nat (rings - k)) (world s)) \<and>
   n = k + int (length (takeWhile id (wait_results c (nat (rings - k)) (world s)))) \<and>
   length (filter is_RingWait (emitted s s')) =
     (if ok then nat (rings - k)
      else Suc (length (takeWhile id (wait_results c (nat (rings - k)) (world s)))))"
proof (induction c rings k s arbitrary: ok n s' rule: ring_wait_loop.induct)
  case (1 c rings k s)
  show ?case
  proof (cases "k < rings")
    case False
    with "1.prems" show ?thesis
      by (simp add: ring_wait_loop.simps emitted_def)
  next
    case True
    obtain b s1 where inv: "invoke (RingWait 7) (ring_event_wait c 7) s = (b, s1)"
      by (cases "invoke (RingWait 7) (ring_event_wait c 7) s")
    then have w: "ring_event_wait c 7 (world s) = (b, world s1)"
      and t1: "trace s1 = trace s @ [RingWait 7]"
      by (simp_all add: invoke_eq)
    from True have suc: "nat (rings - k) = Suc (nat (rings - (k + 1)))"
      by simp
    show ?thesis
    proof (cases b)
      case False
      with True inv "1.prems" have "ok = False" "n = k"
        "s' = emit (Print '' > > > Ringing stopped: Caller hung up or callee answered'' []) s1"
        by (simp_all add: ring_wait_loop.simps [of c rings k s])
      with False w t1 show ?thesis
        by (simp add: suc emitted_def)
    next
      case b: True
      let ?s2 = "emit (Print '' > > > Ring count: {}'' [IntV (k + 1)]) s1"
      from True inv b "1.prems" have rec: "ring_wait_loop c rings (k + 1) ?s2 = ((ok, n), s')"
        by (simp add: ring_wait_loop.simps [of c rings k s])
      from True have le: "k + 1 \<le> rings" by simp
      note ih = "1.IH" [OF True inv [symmetric] eqTrueI [OF b] le rec]
      from ring_wait_loop_trace [OF rec] obtain evs where
        evs: "trace s' = trace ?s2 @ evs" by blast
      then have em: "emitted s s' = RingWait 7 # Print '' > > > Ring count: {}'' [IntV (k + 1)] # evs"
        "emitted ?s2 s' = evs"
        using t1 by (simp_all add: emitted_def)
      from ih b w em show ?thesis
        by (simp add: suc)
    qed
  qed
qed

lemma event_wait_clear:
  "\<not> flag ev \<Longrightarrow> SetOnly \<notin> set (schedule ev) \<Longrightarrow> event_wait t ev = (b, ev') \<Longrightarrow>
   \<not> flag ev' \<and> SetOnly \<notin> set (schedule ev') \<and>
   (if b then schedule ev = Pulse # schedule ev'
    else schedule ev = [] \<and> schedule ev' = [] \<or> schedule ev = Silence # schedule ev')"
  by (cases "schedule ev"; cases "hd (schedule ev)")
     (auto simp: event_wait_def split: list.splits producer_step.splits)

lemma ring_wait_loop_pulses:
  "ring_event_wait c = event_wait \<Longrightarrow> \<not> flag (world s) \<Longrightarrow>
   SetOnly \<notin> set (schedule (world s)) \<Longrightarrow> ring_wait_loop c rings k s = ((ok, n), s') \<Longrightarrow>
   \<not> flag (world s') \<and>
   (\<exists>used. schedule (world s) = used @ schedule (world s') \<and>
      n = k + int (count_list used Pulse))"
proof (induction c rings k s arbitrary: ok n s' rule: ring_wait_loop.induct)
  case (1 c rings k s)
  show ?case
  proof (cases "k < rings")
    case False
    with "1.prems" show ?thesis
      by (simp add: ring_wait_loop.simps)
  next
    case True
    obtain b s1 where inv: "invoke (RingWait 7) (ring_event_wait c 7) s = (b, s1)"
      by (cases "invoke (RingWait 7) (ring_event_wait c 7) s")
    with "1.prems"(1) have w: "event_wait 7 (world s) = (b, world s1)"
      by (simp add: invoke_eq)
    note step = event_wait_clear [OF "1.prems"(2) "1.prems"(3) w]
    show ?thesis
    proof (cases b)
      case False
      with True inv "1.prems" have "n = k"
        "s' = emit (Print '' > > > Ringing stopped: Caller hung up or callee answered'' []) s1"
        by (simp_all add: ring_wait_loop.simps [of c rings k s])
      with False step show ?thesis
        by (auto intro: exI [of _ "[]"] exI [of _ "[Silence]"])
    next
      case b: True
      let ?s2 = "emit (Print '' > > > Ring count: {}'' [IntV (k + 1)]) s1"
      from True inv b "1.prems" have rec: "ring_wait_loop c rings (k + 1) ?s2 = ((ok, n), s')"
        by (simp add: ring_wait_loop.simps [of c rings k s])
      from step have f2: "\<not> flag (world ?s2)" and n2: "SetOnly \<notin> set (schedule (world ?s2))"
        by simp_all
      from "1.IH" [OF True inv [symmetric] eqTrueI [OF b] "1.prems"(1) f2 n2 rec]
      obtain used where u: "\<not> flag (world s')" "schedule (world ?s2) = used @ schedule (world s')"
        "n = k + 1 + int (count_list used Pulse)" by blast
      from step b have "schedule (world s) = Pulse # schedule (world s1)" by simp
      with u have "schedule (world s) = (Pulse # used) @ schedule (world s')"
        "n = k + int (count_list (Pulse # used) Pulse)" by simp_all
      with u(1) show ?thesis by blast
    qed
  qed
qed

lemma ring_wait_loop_flag_set:
  "ring_event_wait c = event_wait \<Longrightarrow> flag (world s) \<Longrightarrow>
   ring_wait_loop c rings k s = ((ok, n), s') \<Longrightarrow>
   ok \<and> world s' = world s \<and> n = max k rings"
proof (induction c rings k s arbitrary: ok n s' rule: ring_wait_loop.induct)
  case (1 c rings k s)
  show ?case
  proof (cases "k < rings")
    case False
    with "1.prems" show ?thesis
      by (simp add: ring_wait_loop.simps)
  next
    case True
    obtain b s1 where inv: "invoke (RingWait 7) (ring_event_wait c 7) s = (b, s1)"
      by (cases "invoke (RingWait 7) (ring_event_wait c 7) s")
    with "1.prems"(1) have w: "event_wait 7 (world s) = (b, world s1)"
      by (simp add: invoke_eq)
    with "1.prems"(2) have b: "b" and w1: "world s1 = world s"
      by (simp_all add: event_wait_def)
    let ?s2 = "emit (Print '' > > > Ring count: {}'' [IntV (k + 1)]) s1"
    from True inv b "1.prems" have rec: "ring_wait_loop c rings (k + 1) ?s2 = ((ok, n), s')"
      by (simp add: ring_wait_loop.simps [of c rings k s])
    from w1 "1.prems"(2) have f2: "flag (world ?s2)" by simp
    from "1.IH" [OF True inv [symmetric] eqTrueI [OF b] "1.prems"(1) f2 rec] w1 True
    show ?thesis by simp
  qed
qed

text \<open>
  C5, as the code has it. The loop of lines 179-190 calls nothing but \<^verbatim>\<open>wait(7)\<close> on the
  ring event; it never clears it. With the ring event set on entry every wait returns at
  once, the event stays as it was, and the loop counts up to \<open>rings_before_answer\<close>
  without the modem's thread doing anything. With the ring event clear on entry and a
  modem thread that clears it after every \<^verbatim>\<open>set()\<close> (all its steps are \<open>Pulse\<close> or
  \<open>Silence\<close>), the event is clear again after the loop and the rings counted beyond the
  first are as many as the pulses the waits used up.
\<close>

theorem ring_wait_loop_never_resets:
  assumes "ring_event_wait c = event_wait"
  shows
    "(flag (world s) \<longrightarrow>
        fst (ring_wait_loop c rings k s) = (True, max k rings)
        \<and> world (snd (ring_wait_loop c rings k s)) = world s)
     \<and> (\<not> flag (world s) \<and> SetOnly \<notin> set (schedule (world s)) \<longrightarrow>
          \<not> flag (world (snd (ring_wait_loop c rings k s)))
          \<and> snd (fst (ring_wait_loop c rings k s)) =
              k + int (count_list
                         (consumed (world s) (world (snd (ring_wait_loop c rings k s)))) Pulse))"
proof -
  obtain ok n s' where l: "ring_wait_loop c rings k s = ((ok, n), s')"
    by (cases "ring_wait_loop c rings k s") auto
  show ?thesis
  proof (intro conjI impI)
    assume f: "flag (world s)"
    from ring_wait_loop_flag_set [OF assms f l]
    show "fst (ring_wait_loop c rings k s) = (True, max k rings)"
      and "world (snd (ring_wait_loop c rings k s)) = world s"
      using l by simp_all
  next
    assume "\<not> flag (world s) \<and> SetOnly \<notin> set (schedule (world s))"
    then have nf: "\<not> flag (world s)" and ns: "SetOnly \<notin> set (schedule (world s))"
      by simp_all
    from ring_wait_loop_pulses [OF assms nf ns l] obtain used where
      u: "\<not> flag (world s')" "schedule (world s) = used @ schedule (world s')"
        "n = k + int (count_list used Pulse)" by blast
    from u(2) have "consumed (world s) (world s') = used"
      by (simp add: consumed_def)
    with u l show "\<not> flag (world (snd (ring_wait_loop c rings k s)))"
      and "snd (fst (ring_wait_loop c rings k s)) =
              k + int (count_list
                         (consumed (world s) (world (snd (ring_wait_loop c rings k s)))) Pulse)"
      by simp_all
  qed
qed

text \<open>
  Two pulses and a silence with four rings required: the count stops at 3. An event left
  set: the count reaches 4 with no pulse at all.
\<close>

theorem ring_wait_loop_never_resets_witness:
  "ring_event_wait line = event_wait
   \<and> \<not> flag (world (idle [Pulse, Pulse, Silence]))
   \<and> SetOnly \<notin> set (schedule (world (idle [Pulse, Pulse, Silence])))
   \<and> snd (fst (ring_wait_loop line 4 1 (idle [Pulse, Pulse, Silence]))) = 3
   \<and> consumed (world (idle [Pulse, Pulse, Silence]))
        (world (snd (ring_wait_loop line 4 1 (idle [Pulse, Pulse, Silence])))) =
       [Pulse, Pulse, Silence]
   \<and> \<not> flag (world (snd (ring_wait_loop line 4 1 (idle [Pulse, Pulse, Silence]))))
   \<and> flag (world stuck)
   \<and> fst (ring_wait_loop line 4 1 stuck) = (True, 4)
   \<and> world (snd (ring_wait_loop line 4 1 stuck)) = world stuck"
proof -
  have w: "world (snd (ring_wait_loop line 4 1 (idle [Pulse, Pulse, Silence]))) =
      \<lparr>flag = False, schedule = []\<rparr>"
    by (simp add: ring_wait_loop.simps engine_defs line_defs)
  have i: "world (idle [Pulse, Pulse, Silence]) = \<lparr>flag = False, schedule = [Pulse, Pulse, Silence]\<rparr>"
    "world stuck = \<lparr>flag = True, schedule = []\<rparr>"
    by (simp_all add: idle_def stuck_def)
  have l: "ring_event_wait line = event_wait"
    by (simp add: line_def)
  show ?thesis
    using ring_wait_loop_never_resets [OF l, where rings = 4 and k = 1
        and s = "idle [Pulse, Pulse, Silence]"]
      ring_wait_loop_never_resets [OF l, where rings = 4 and k = 1 and s = stuck]
    by (simp add: w i l consumed_def)
qed

text \<open>
  C5 as stated fails: the modem's thread sets the event once and does not clear it. The
  first wait of the loop returns true and leaves the event set (nothing in the loop resets
  it), the second wait is satisfied by the same signal, and with three rings required the
  loop reports the call eligible after a single ring signal.
\<close>

theorem ring_signal_replayed:
  "length (schedule (world (idle [SetOnly]))) = 1
   \<and> fst (invoke (RingWait 7) (ring_event_wait line 7) (idle [SetOnly]))
   \<and> flag (world (snd (invoke (RingWait 7) (ring_event_wait line 7) (idle [SetOnly]))))
   \<and> ring_wait_loop line 3 1 (idle [SetOnly]) =
       ((True, 3),
        \<lparr>world = \<lparr>flag = True, schedule = []\<rparr>,
         trace = [RingWait 7, Print '' > > > Ring count: {}'' [IntV 2],
                  RingWait 7, Print '' > > > Ring count: {}'' [IntV 3]]\<rparr>)"
  by (simp add: ring_wait_loop.simps engine_defs line_defs)

lemma is_screening_other:
  "is_screening e \<Longrightarrow> \<not> is_LogCaller e \<and> \<not> is_RingWait e \<and> \<not> is_answering e"
  by (cases e) auto

lemma answering_not_blacklist:
  "is_Print e \<or> is_RingWait e \<or> is_answering e \<Longrightarrow> \<not> is_IsBlacklisted e \<and> \<not> is_LogCaller e"
  by (cases e) auto

lemma screen_caller_trace:
  "screen_caller c mode caller s = (r, s') \<Longrightarrow>
   \<exists>evs. trace s' = trace s @ evs \<and> (\<forall>e\<in>set evs. is_screening e)"
  by (auto simp: screen_caller_def check_whitelist_def check_blacklist_def default_screened_def
        seq_def invoke_eq split: if_splits prod.splits sum.splits)

lemma screen_caller_whitelisted:
  assumes "''whitelist'' \<in> set mode"
    and "is_whitelisted c caller (world s) = (Inr (True, why), w1)"
  shows "(case fst (screen_caller c mode caller s) of
            Inr v \<Rightarrow> v = \<lparr>caller_permitted = True, caller_screened = False, caller_blocked = False,
                         action = ''Permitted'', reason = why\<rparr>
          | Inl e \<Rightarrow> fst (approved_blink c w1) = Inl e)
         \<and> emitted s (snd (screen_caller c mode caller s)) =
             [Print ''> Checking whitelist(s)'' [], IsWhitelisted caller, ApprovedBlink]"
  using assms
  by (cases "approved_blink c w1")
     (auto simp: screen_caller_def check_whitelist_def check_blacklist_def default_screened_def
        screening_init_def seq_def invoke_def emit_def emitted_def split: sum.splits)

lemma answer_if_ok_trace:
  assumes "answer_if_ok c ns call_no caller s = (r, s')"
  shows "\<exists>evs. trace s' = trace s @ evs \<and>
           (\<forall>e\<in>set evs. is_Print e \<or> is_RingWait e \<or> is_answering e)"
proof -
  obtain ok n s1 where l: "ring_wait_loop c (rings_before_answer ns) 1 s = ((ok, n), s1)"
    by (cases "ring_wait_loop c (rings_before_answer ns) 1 s") auto
  from ring_wait_loop_trace [OF l] obtain wt where
    wt: "trace s1 = trace s @ wt" "\<forall>e\<in>set wt. is_RingWait e \<or> is_Print e" by blast
  show ?thesis
  proof (cases "ok \<and> length (actions ns) > 0")
    case False
    with assms l have "s' = s1" by (auto simp: answer_if_ok_def)
    with wt show ?thesis by auto
  next
    case True
    with assms l have ac: "answer_call c (actions ns) (greeting_file ns) call_no caller s1 = (r, s')"
      by (auto simp: answer_if_ok_def)
    have "\<exists>an. trace s' = trace s1 @ an \<and> (\<forall>e\<in>set an. is_Print e \<or> is_answering e)"
      using answer_call_trace [OF ac]
    proof (elim disjE conjE exE)
      assume "trace s' = trace s1 @ [PickUp]"
      then show ?thesis by (intro exI [of _ "[PickUp]"]) simp
    next
      fix evs
      assume "trace s' = trace s1 @ PickUp # evs @ [HangUp]"
        "\<forall>e\<in>set evs. is_Print e \<or> (is_answering e \<and> e \<noteq> PickUp \<and> e \<noteq> HangUp)"
      then show ?thesis by (intro exI [of _ "PickUp # evs @ [HangUp]"]) auto
    qed
    then obtain an where
      "trace s' = trace s1 @ an" "\<forall>e\<in>set an. is_Print e \<or> is_answering e"
      by blast
    with wt have "trace s' = trace s @ (wt @ an)"
      "\<forall>e\<in>set (wt @ an). is_Print e \<or> is_RingWait e \<or> is_answering e" by auto
    then show ?thesis by blast
  qed
qed

lemma log_and_answer_trace:
  assumes "log_and_answer c cfg caller p v s = (r, s')"
  shows "\<exists>evs. trace s' = trace s @ LogCaller caller (action v) (reason v) # evs \<and>
           (\<forall>e\<in>set evs. is_Print e \<or> is_RingWait e \<or> is_answering e)"
proof -
  obtain r1 s1 where lg: "invoke (LogCaller caller (action v) (reason v))
      (log_caller c caller (action v) (reason v)) s = (r1, s1)"
    by (cases "invoke (LogCaller caller (action v) (reason v))
      (log_caller c caller (action v) (reason v)) s")
  then have t1: "trace s1 = trace s @ [LogCaller caller (action v) (reason v)]"
    by (simp add: invoke_eq)
  show ?thesis
  proof (cases r1)
    case (Inl e)
    with assms lg have "s' = s1" by (simp add: log_and_answer_def seq_def)
    with t1 show ?thesis by simp
  next
    case (Inr call_no)
    let ?s2 = "emit (Print ''--> {} {}: {}'' [Str p, Str (action v), reason v]) s1"
    show ?thesis
    proof (cases "gather cfg v")
      case (Inl e)
      with assms lg Inr have "s' = ?s2" by (simp add: log_and_answer_def seq_def)
      with t1 show ?thesis by simp
    next
      case g: (Inr ns)
      with assms lg Inr have "answer_if_ok c ns call_no caller ?s2 = (r, s')"
        by (simp add: log_and_answer_def seq_def)
      from answer_if_ok_trace [OF this] obtain evs where
        "trace s' = trace ?s2 @ evs" "\<forall>e\<in>set evs. is_Print e \<or> is_RingWait e \<or> is_answering e"
        by blast
      with t1 have "trace s' = trace s @ LogCaller caller (action v) (reason v) #
          (Print ''--> {} {}: {}'' [Str p, Str (action v), reason v] # evs)"
        "\<forall>e\<in>set (Print ''--> {} {}: {}'' [Str p, Str (action v), reason v] # evs).
           is_Print e \<or> is_RingWait e \<or> is_answering e"
        by simp_all
      then show ?thesis by blast
    qed
  qed
qed

text \<open>The trace of one call: screening events, then (if reached) the log entry, then
  waits and answering.\<close>

lemma process_call_trace:
  "(\<exists>e. phone_number caller = Inl e \<and> process_call c cfg caller s = (Inl e, s)) \<or>
   (\<exists>p pre e s1. phone_number caller = Inr p \<and>
      screen_caller c (screening_mode cfg) caller (emit (Print ''Incoming call from {}'' [Str p]) s)
        = (Inl e, s1) \<and>
      process_call c cfg caller s = (Inl e, s1) \<and>
      emitted s s1 = pre \<and> (\<forall>e\<in>set pre. is_screening e)) \<or>
   (\<exists>p pre v s1 post. phone_number caller = Inr p \<and>
      screen_caller c (screening_mode cfg) caller (emit (Print ''Incoming call from {}'' [Str p]) s)
        = (Inr v, s1) \<and>
      emitted s (snd (process_call c cfg caller s)) =
        pre @ LogCaller caller (action v) (reason v) # post \<and>
      emitted s s1 = pre \<and>
      (\<forall>e\<in>set pre. is_screening e) \<and>
      (\<forall>e\<in>set post. is_Print e \<or> is_RingWait e \<or> is_answering e))"
proof (cases "phone_number caller")
  case (Inl e)
  then show ?thesis by (simp add: process_call_def)
next
  case (Inr p)
  let ?s0 = "emit (Print ''Incoming call from {}'' [Str p]) s"
  obtain r1 s1 where sc: "screen_caller c (screening_mode cfg) caller ?s0 = (r1, s1)"
    by (cases "screen_caller c (screening_mode cfg) caller ?s0")
  from screen_caller_trace [OF sc] obtain evs where
    evs: "trace s1 = trace ?s0 @ evs" "\<forall>e\<in>set evs. is_screening e" by blast
  let ?pre = "Print ''Incoming call from {}'' [Str p] # evs"
  have pre: "emitted s s1 = ?pre" "\<forall>e\<in>set ?pre. is_screening e"
    using evs by (simp_all add: emitted_def)
  show ?thesis
  proof (cases r1)
    case (Inl e)
    with Inr sc have "process_call c cfg caller s = (Inl e, s1)"
      by (simp add: process_call_def seq_def)
    with Inr sc Inl pre show ?thesis by blast
  next
    case v: (Inr v)
    obtain r2 s2 where la: "log_and_answer c cfg caller p v s1 = (r2, s2)"
      by (cases "log_and_answer c cfg caller p v s1")
    with Inr sc v have pc: "process_call c cfg caller s = (r2, s2)"
      by (simp add: process_call_def seq_def)
    from log_and_answer_trace [OF la] obtain post where
      post: "trace s2 = trace s1 @ LogCaller caller (action v) (reason v) # post"
        "\<forall>e\<in>set post. is_Print e \<or> is_RingWait e \<or> is_answering e" by blast
    have "emitted s (snd (process_call c cfg caller s)) =
        ?pre @ LogCaller caller (action v) (reason v) # post"
      using pc post evs by (simp add: emitted_def)
    with Inr sc v pre post show ?thesis by blast
  qed
qed

text \<open>
  C3. With \<^verbatim>\<open>"whitelist"\<close> among the screening modes and a whitelist check that
  returns a match, the screening ends Permitted with the whitelist's reason (unless the
  indicator's \<open>blink\<close> raises, the only call left to make), and the blacklist is not
  consulted: neither the screening nor anything later in the handling of that call calls
  \<open>is_blacklisted\<close>, whatever the modes and whatever the blacklist would say. If the call
  is logged, it is logged as Permitted.
\<close>

theorem whitelist_match_preempts_blacklist:
  assumes "''whitelist'' \<in> set (screening_mode cfg)"
    and "is_whitelisted c caller (world s) = (Inr (True, why), w1)"
  shows
    "(case fst (screen_caller c (screening_mode cfg) caller s) of
        Inr v \<Rightarrow> v = \<lparr>caller_permitted = True, caller_screened = False, caller_blocked = False,
                     action = ''Permitted'', reason = why\<rparr>
      | Inl e \<Rightarrow> fst (approved_blink c w1) = Inl e)
     \<and> \<not> (\<exists>e\<in>set (emitted s (snd (screen_caller c (screening_mode cfg) caller s))).
             is_IsBlacklisted e)
     \<and> \<not> (\<exists>e\<in>set (emitted s (snd (process_call c cfg caller s))). is_IsBlacklisted e)
     \<and> (\<forall>e\<in>set (emitted s (snd (process_call c cfg caller s))).
           is_LogCaller e \<longrightarrow> e = LogCaller caller ''Permitted'' why)"
proof (intro conjI)
  note sc = screen_caller_whitelisted [OF assms]
  from sc show "case fst (screen_caller c (screening_mode cfg) caller s) of
        Inr v \<Rightarrow> v = \<lparr>caller_permitted = True, caller_screened = False, caller_blocked = False,
                     action = ''Permitted'', reason = why\<rparr>
      | Inl e \<Rightarrow> fst (approved_blink c w1) = Inl e"
    by blast
  from sc show "\<not> (\<exists>e\<in>set (emitted s (snd (screen_caller c (screening_mode cfg) caller s))).
             is_IsBlacklisted e)"
    by simp
  have both: "\<not> (\<exists>e\<in>set (emitted s (snd (process_call c cfg caller s))). is_IsBlacklisted e)
     \<and> (\<forall>e\<in>set (emitted s (snd (process_call c cfg caller s))).
           is_LogCaller e \<longrightarrow> e = LogCaller caller ''Permitted'' why)"
    using process_call_trace [of caller c cfg s]
  proof (elim disjE exE conjE)
    fix e
    assume "process_call c cfg caller s = (Inl e, s)"
    then show ?thesis by (simp add: emitted_def)
  next
    fix p pre e s1
    let ?s0 = "emit (Print ''Incoming call from {}'' [Str p]) s"
    assume pc: "process_call c cfg caller s = (Inl e, s1)"
      and scr: "screen_caller c (screening_mode cfg) caller ?s0 = (Inl e, s1)"
      and pre: "emitted s s1 = pre"
    from assms(2) have "is_whitelisted c caller (world ?s0) = (Inr (True, why), w1)" by simp
    from screen_caller_whitelisted [OF assms(1) this] scr
    have "emitted ?s0 s1 = [Print ''> Checking whitelist(s)'' [], IsWhitelisted caller, ApprovedBlink]"
      by simp
    then have "emitted s s1 = [Print ''Incoming call from {}'' [Str p],
        Print ''> Checking whitelist(s)'' [], IsWhitelisted caller, ApprovedBlink]"
      using screen_caller_trace [OF scr] by (auto simp: emitted_def)
    with pc show ?thesis by simp
  next
    fix p pre v s1 post
    let ?s0 = "emit (Print ''Incoming call from {}'' [Str p]) s"
    assume scr: "screen_caller c (screening_mode cfg) caller ?s0 = (Inr v, s1)"
      and em: "emitted s (snd (process_call c cfg caller s)) =
        pre @ LogCaller caller (action v) (reason v) # post"
      and pre: "emitted s s1 = pre"
      and post: "\<forall>e\<in>set post. is_Print e \<or> is_RingWait e \<or> is_answering e"
    from assms(2) have "is_whitelisted c caller (world ?s0) = (Inr (True, why), w1)" by simp
    from screen_caller_whitelisted [OF assms(1) this] scr
    have v: "action v = ''Permitted''" "reason v = why"
      and "emitted ?s0 s1 = [Print ''> Checking whitelist(s)'' [], IsWhitelisted caller, ApprovedBlink]"
      by simp_all
    then have "emitted s s1 = [Print ''Incoming call from {}'' [Str p],
        Print ''> Checking whitelist(s)'' [], IsWhitelisted caller, ApprovedBlink]"
      using screen_caller_trace [OF scr] by (auto simp: emitted_def)
    with pre have p: "pre = [Print ''Incoming call from {}'' [Str p],
        Print ''> Checking whitelist(s)'' [], IsWhitelisted caller, ApprovedBlink]" by simp
    from post answering_not_blacklist
    have np: "\<forall>e\<in>set post. \<not> is_IsBlacklisted e \<and> \<not> is_LogCaller e" by blast
    show ?thesis
      unfolding em p using np v by auto
  qed
  from both show "\<not> (\<exists>e\<in>set (emitted s (snd (process_call c cfg caller s))). is_IsBlacklisted e)"
    by blast
  from both show "\<forall>e\<in>set (emitted s (snd (process_call c cfg caller s))).
           is_LogCaller e \<longrightarrow> e = LogCaller caller ''Permitted'' why"
    by blast
qed

text \<open>
  A caller on the whitelist and, with a blacklist that holds everybody, on the blacklist
  too: Permitted, logged so, the blacklist never asked.
\<close>

theorem whitelist_match_preempts_blacklist_witness:
  "''whitelist'' \<in> set (screening_mode settings)
   \<and> ''blacklist'' \<in> set (screening_mode settings)
   \<and> is_whitelisted strict_blacklist family (world (idle [Pulse])) =
       (Inr (True, Str ''Family''), world (idle [Pulse]))
   \<and> fst (is_blacklisted strict_blacklist family (world (idle [Pulse]))) =
       Inr (True, Str ''Everybody'')
   \<and> fst (screen_caller strict_blacklist (screening_mode settings) family (idle [Pulse])) =
       Inr \<lparr>caller_permitted = True, caller_screened = False, caller_blocked = False,
            action = ''Permitted'', reason = Str ''Family''\<rparr>
   \<and> \<not> (\<exists>e\<in>set (emitted (idle [Pulse])
             (snd (process_call strict_blacklist settings family (idle [Pulse])))).
           is_IsBlacklisted e)
   \<and> LogCaller family ''Permitted'' (Str ''Family'')
       \<in> set (emitted (idle [Pulse])
                (snd (process_call strict_blacklist settings family (idle [Pulse]))))"
proof -
  have m: "''whitelist'' \<in> set (screening_mode settings)"
    by (simp add: settings_def)
  have w: "is_whitelisted strict_blacklist family (world (idle [Pulse])) =
       (Inr (True, Str ''Family''), world (idle [Pulse]))"
    by (simp add: line_defs)
  show ?thesis
    using whitelist_match_preempts_blacklist [OF m w]
    by (simp add: engine_defs line_defs ring_wait_loop.simps)
qed

text \<open>
  C8, as the code has it. A caller whom every list consulted misses (the whitelist when
  \<^verbatim>\<open>"whitelist"\<close> is a screening mode, then the blacklist when \<^verbatim>\<open>"blacklist"\<close> is
  one) is Screened, unless the indicator's \<open>blink\<close> raises. The reason is the empty
  string only when no list is consulted; otherwise lines 138 and 147 overwrite it with
  whatever the last list consulted returned with its miss.
\<close>

theorem unmatched_caller_is_screened:
  assumes "if ''whitelist'' \<in> set mode
           then is_whitelisted c caller (world s) = (Inr (False, r1), w1)
           else r1 = Str '''' \<and> w1 = world s"
    and "if ''blacklist'' \<in> set mode
         then is_blacklisted c caller w1 = (Inr (False, r2), w2)
         else r2 = r1 \<and> w2 = w1"
  shows
    "(case fst (screen_caller c mode caller s) of
        Inr v \<Rightarrow> v = \<lparr>caller_permitted = False, caller_screened = True, caller_blocked = False,
                     action = ''Screened'', reason = r2\<rparr>
      | Inl e \<Rightarrow> fst (approved_blink c w2) = Inl e)
     \<and> world (snd (screen_caller c mode caller s)) = snd (approved_blink c w2)
     \<and> (''whitelist'' \<notin> set mode \<and> ''blacklist'' \<notin> set mode \<longrightarrow> r2 = Str '''')"
  using assms
  by (cases "approved_blink c w2")
     (auto simp: screen_caller_def check_whitelist_def check_blacklist_def default_screened_def
        screening_init_def seq_def invoke_def emit_def split: if_splits sum.splits)

text \<open>
  With both lists consulted the reason is the blacklist's; with no screening mode it is
  the empty string.
\<close>

theorem unmatched_caller_is_screened_witness:
  "''whitelist'' \<in> set [''whitelist'', ''blacklist'']
   \<and> ''blacklist'' \<in> set [''whitelist'', ''blacklist'']
   \<and> is_whitelisted verbose_screener stranger (world (idle [])) =
       (Inr (False, NoneV), world (idle []))
   \<and> is_blacklisted verbose_screener stranger (world (idle [])) =
       (Inr (False, Str ''No matches found''), world (idle []))
   \<and> fst (screen_caller verbose_screener [''whitelist'', ''blacklist''] stranger (idle [])) =
       Inr \<lparr>caller_permitted = False, caller_screened = True, caller_blocked = False,
            action = ''Screened'', reason = Str ''No matches found''\<rparr>
   \<and> fst (screen_caller line [] stranger (idle [])) =
       Inr \<lparr>caller_permitted = False, caller_screened = True, caller_blocked = False,
            action = ''Screened'', reason = Str ''''\<rparr>"
proof -
  have w: "if ''whitelist'' \<in> set [''whitelist'', ''blacklist'']
           then is_whitelisted verbose_screener stranger (world (idle [])) =
                  (Inr (False, NoneV), world (idle []))
           else NoneV = Str '''' \<and> world (idle []) = world (idle [])"
    by (simp add: line_defs)
  have b: "if ''blacklist'' \<in> set [''whitelist'', ''blacklist'']
         then is_blacklisted verbose_screener stranger (world (idle [])) =
                (Inr (False, Str ''No matches found''), world (idle []))
         else Str ''No matches found'' = NoneV \<and> world (idle []) = world (idle [])"
    by (simp add: line_defs)
  have w0: "if ''whitelist'' \<in> set []
           then is_whitelisted line stranger (world (idle [])) = (Inr (False, Str ''''), world (idle []))
           else Str '''' = Str '''' \<and> world (idle []) = world (idle [])"
    by simp
  have b0: "if ''blacklist'' \<in> set []
         then is_blacklisted line stranger (world (idle [])) = (Inr (False, Str ''''), world (idle []))
         else Str '''' = Str '''' \<and> world (idle []) = world (idle [])"
    by simp
  show ?thesis
    using unmatched_caller_is_screened [OF w b] unmatched_caller_is_screened [OF w0 b0]
    by (simp add: line_defs split: sum.splits)
qed

text \<open>
  C8 as stated fails: a caller on neither list, both modes enabled, and a blacklist that
  returns a reason with its miss. The caller is Screened and the reason is the
  blacklist's, not the empty string.
\<close>

theorem screened_reason_not_empty:
  "''whitelist'' \<in> set (screening_mode settings)
   \<and> ''blacklist'' \<in> set (screening_mode settings)
   \<and> fst (is_whitelisted verbose_screener stranger (world (idle []))) = Inr (False, NoneV)
   \<and> fst (is_blacklisted verbose_screener stranger (world (idle []))) =
       Inr (False, Str ''No matches found'')
   \<and> fst (screen_caller verbose_screener (screening_mode settings) stranger (idle [])) =
       Inr \<lparr>caller_permitted = False, caller_screened = True, caller_blocked = False,
            action = ''Screened'', reason = Str ''No matches found''\<rparr>
   \<and> Str ''No matches found'' \<noteq> Str ''''"
  by (simp add: engine_defs line_defs)

text \<open>How the loop ends: waiting on an empty queue, or at the first call whose handling
  raised, with the callers behind it still queued.\<close>

lemma run_loop_ends:
  "run_loop c cfg q s = (res, rest, s') \<Longrightarrow>
   (res = Blocked \<and> rest = []) \<or>
   (\<exists>handled caller e s1. q = handled @ caller # rest \<and>
      fst (process_call c cfg caller s1) = Inl e \<and>
      res = (if is_Exception e then Returned 1 else Raised e))"
proof (induction q arbitrary: s)
  case Nil
  then show ?case by simp
next
  case (Cons caller q)
  obtain r s1 where pc: "process_call c cfg caller s = (r, s1)"
    by (cases "process_call c cfg caller s")
  show ?case
  proof (cases r)
    case (Inl e)
    with pc Cons.prems have "rest = q" "res = (if is_Exception e then Returned 1 else Raised e)"
      by (auto split: if_splits)
    moreover from pc Inl have "fst (process_call c cfg caller s) = Inl e" by simp
    ultimately have "caller # q = [] @ caller # rest \<and>
        fst (process_call c cfg caller s) = Inl e \<and>
        res = (if is_Exception e then Returned 1 else Raised e)" by simp
    then show ?thesis by blast
  next
    case (Inr u)
    with pc Cons.prems have "run_loop c cfg q s1 = (res, rest, s')" by simp
    from Cons.IH [OF this] show ?thesis
    proof (elim disjE exE conjE)
      assume "res = Blocked" "rest = []"
      then show ?thesis by simp
    next
      fix handled caller' e s2
      assume "q = handled @ caller' # rest"
        "fst (process_call c cfg caller' s2) = Inl e"
        "res = (if is_Exception e then Returned 1 else Raised e)"
      then have "caller # q = (caller # handled) @ caller' # rest \<and>
          fst (process_call c cfg caller' s2) = Inl e \<and>
          res = (if is_Exception e then Returned 1 else Raised e)" by simp
      then show ?thesis by blast
    qed
  qed
qed

text \<open>
  C1, as the code has it. The \<^verbatim>\<open>except Exception\<close> clause of lines 196-199 sits inside
  the loop but ends with \<^verbatim>\<open>return 1\<close>: when the handling of a call raises an
  \<^verbatim>\<open>Exception\<close> (one that \<open>answer_call\<close> has not caught itself), the loop prints it,
  prints that it is exiting and returns 1, leaving the callers behind it in the queue.
  Only a call handled without an exception is followed by the next one. So the loop ends
  in one of two ways: waiting on the empty queue after every call went through, or at the
  first call whose handling raised.
\<close>

theorem run_loop_exits_on_exception:
  "(\<forall>e s1. process_call c cfg caller s = (Inl e, s1) \<and> is_Exception e \<longrightarrow>
      run_loop c cfg (caller # q) s =
        (Returned 1, q,
         emit (Print ''** Error running callattendant. Exiting.'' []) (emit (PPrintExn e) s1)))
   \<and> (\<forall>u s1. process_call c cfg caller s = (Inr u, s1) \<longrightarrow>
         run_loop c cfg (caller # q) s = run_loop c cfg q s1)
   \<and> (\<forall>res rest s'. run_loop c cfg q s = (res, rest, s') \<longrightarrow>
         (res = Blocked \<and> rest = []) \<or>
         (\<exists>handled failing e s1. q = handled @ failing # rest \<and>
            fst (process_call c cfg failing s1) = Inl e \<and>
            res = (if is_Exception e then Returned 1 else Raised e)))"
proof (intro conjI allI impI)
  fix e s1
  assume "process_call c cfg caller s = (Inl e, s1) \<and> is_Exception e"
  then show "run_loop c cfg (caller # q) s =
        (Returned 1, q,
         emit (Print ''** Error running callattendant. Exiting.'' []) (emit (PPrintExn e) s1))"
    by simp
next
  fix u s1
  assume "process_call c cfg caller s = (Inr u, s1)"
  then show "run_loop c cfg (caller # q) s = run_loop c cfg q s1"
    by simp
next
  fix res rest s'
  assume "run_loop c cfg q s = (res, rest, s')"
  from run_loop_ends [OF this]
  show "(res = Blocked \<and> rest = []) \<or>
         (\<exists>handled failing e s1. q = handled @ failing # rest \<and>
            fst (process_call c cfg failing s1) = Inl e \<and>
            res = (if is_Exception e then Returned 1 else Raised e))"
    by blast
qed

text \<open>
  A whitelist lookup that fails on the first of two callers: the loop returns 1 and the
  second caller stays queued. On the working line both callers are handled.
\<close>

theorem run_loop_exits_on_exception_witness:
  "process_call broken_screener settings stranger (idle [Pulse]) =
     (Inl (OSError ''unable to open database file''),
      \<lparr>world = \<lparr>flag = False, schedule = [Pulse]\<rparr>,
       trace = [Print ''Incoming call from {}'' [Str ''555-000-1111''],
                Print ''> Checking whitelist(s)'' [], IsWhitelisted stranger]\<rparr>)
   \<and> is_Exception (OSError ''unable to open database file'')
   \<and> run_loop broken_screener settings [stranger, family] (idle [Pulse]) =
       (Returned 1, [family],
        \<lparr>world = \<lparr>flag = False, schedule = [Pulse]\<rparr>,
         trace = [Print ''Incoming call from {}'' [Str ''555-000-1111''],
                  Print ''> Checking whitelist(s)'' [], IsWhitelisted stranger,
                  PPrintExn (OSError ''unable to open database file''),
                  Print ''** Error running callattendant. Exiting.'' []]\<rparr>)
   \<and> fst (run_loop line settings [telemarketer, family] (idle [Pulse])) = Blocked
   \<and> fst (snd (run_loop line settings [telemarketer, family] (idle [Pulse]))) = []"
proof -
  have a: "process_call broken_screener settings stranger (idle [Pulse]) =
     (Inl (OSError ''unable to open database file''),
      \<lparr>world = \<lparr>flag = False, schedule = [Pulse]\<rparr>,
       trace = [Print ''Incoming call from {}'' [Str ''555-000-1111''],
                Print ''> Checking whitelist(s)'' [], IsWhitelisted stranger]\<rparr>)"
    by (simp add: engine_defs line_defs)
  have b: "fst (run_loop line settings [telemarketer, family] (idle [Pulse])) = Blocked
     \<and> fst (snd (run_loop line settings [telemarketer, family] (idle [Pulse]))) = []"
    by (simp add: engine_defs line_defs ring_wait_loop.simps)
  show ?thesis
    using run_loop_exits_on_exception [where c = broken_screener and cfg = settings
        and caller = stranger and q = "[family]" and s = "idle [Pulse]"] a b
    by (simp add: emit_def)
qed

text \<open>
  C1 as stated fails: the whitelist check raises while the first caller is classified.
  \<open>run\<close> reports the error, returns 1 and never takes the second caller out of the
  queue; on the working line the same second caller is logged.
\<close>

theorem run_loop_ended_by_one_call:
  "fst (is_whitelisted broken_screener stranger (world (idle [Pulse]))) =
     Inl (OSError ''unable to open database file'')
   \<and> fst (run broken_screener settings [stranger, family] (idle [Pulse])) = Returned 1
   \<and> fst (snd (run broken_screener settings [stranger, family] (idle [Pulse]))) = [family]
   \<and> trace (snd (snd (run broken_screener settings [stranger, family] (idle [Pulse])))) =
       [HandleCalls, Print ''Incoming call from {}'' [Str ''555-000-1111''],
        Print ''> Checking whitelist(s)'' [], IsWhitelisted stranger,
        PPrintExn (OSError ''unable to open database file''),
        Print ''** Error running callattendant. Exiting.'' []]
   \<and> fst (run line settings [stranger, family] (idle [Pulse])) = Blocked
   \<and> LogCaller family ''Permitted'' (Str ''Family'')
       \<in> set (trace (snd (snd (run line settings [stranger, family] (idle [Pulse])))))"
  by (simp add: engine_defs line_defs ring_wait_loop.simps)

text \<open>
  C10. \<open>handle_caller\<close> appends whatever it is given to the queue. The handling of a
  call raises at the number step exactly when the caller has no string under
  \<^verbatim>\<open>"NMBR"\<close>; for a caller without the key it raises \<^verbatim>\<open>KeyError\<close> with the engine
  state untouched (nothing printed, no list consulted, nothing logged), and the loop
  ends there with 1.
\<close>

theorem caller_without_number:
  "fst (handle_caller cfg caller (q, s)) = q @ [caller]
   \<and> ((\<exists>e. phone_number caller = Inl e) \<longleftrightarrow> (\<forall>n. map_of caller ''NMBR'' \<noteq> Some (Str n)))
   \<and> (map_of caller ''NMBR'' = None \<longrightarrow>
        process_call c cfg caller s = (Inl (KeyError ''NMBR''), s)
        \<and> run_loop c cfg (caller # q') s =
            (Returned 1, q',
             emit (Print ''** Error running callattendant. Exiting.'' [])
               (emit (PPrintExn (KeyError ''NMBR'')) s)))"
  by (auto simp: handle_caller_def phone_number_def process_call_def
        split: option.splits pyval.splits)

text \<open>
  A caller with a name and no number is queued as it is, and ends the loop without a
  trace of screening or logging.
\<close>

theorem caller_without_number_witness:
  "map_of nameless ''NMBR'' = None
   \<and> handle_caller settings nameless ([], idle [Pulse]) = ([nameless], idle [Pulse])
   \<and> process_call line settings nameless (idle [Pulse]) = (Inl (KeyError ''NMBR''), idle [Pulse])
   \<and> run_loop line settings [nameless, family] (idle [Pulse]) =
       (Returned 1, [family],
        \<lparr>world = \<lparr>flag = False, schedule = [Pulse]\<rparr>,
         trace = [PPrintExn (KeyError ''NMBR''),
                  Print ''** Error running callattendant. Exiting.'' []]\<rparr>)"
  using caller_without_number [where c = line and cfg = settings and caller = nameless
      and q = "[]" and q' = "[family]" and s = "idle [Pulse]"]
  by (simp add: handle_caller_def nameless_def settings_def emit_def idle_def)

lemma ring_wait_loop_waits:
  "ring_wait_loop c rings k s = (r, s') \<Longrightarrow>
   \<forall>e\<in>set (emitted s s'). is_RingWait e \<longrightarrow> e = RingWait 7"
proof (induction c rings k s arbitrary: r s' rule: ring_wait_loop.induct)
  case (1 c rings k s)
  show ?case
  proof (cases "k < rings")
    case False
    with "1.prems" show ?thesis
      by (simp add: ring_wait_loop.simps emitted_def)
  next
    case True
    obtain b s1 where inv: "invoke (RingWait 7) (ring_event_wait c 7) s = (b, s1)"
      by (cases "invoke (RingWait 7) (ring_event_wait c 7) s")
    then have t1: "trace s1 = trace s @ [RingWait 7]"
      by (simp add: invoke_eq)
    show ?thesis
    proof (cases b)
      case False
      with True inv "1.prems" t1 show ?thesis
        by (auto simp: ring_wait_loop.simps [of c rings k s] emitted_def)
    next
      case b: True
      let ?s2 = "emit (Print '' > > > Ring count: {}'' [IntV (k + 1)]) s1"
      from True inv b "1.prems" have rec: "ring_wait_loop c rings (k + 1) ?s2 = (r, s')"
        by (simp add: ring_wait_loop.simps [of c rings k s])
      note ih = "1.IH" [OF True inv [symmetric] eqTrueI [OF b] rec]
      from ring_wait_loop_trace [OF rec] obtain evs where
        evs: "trace s' = trace ?s2 @ evs" by blast
      then have "emitted ?s2 s' = evs"
        "emitted s s' = RingWait 7 # Print '' > > > Ring count: {}'' [IntV (k + 1)] # evs"
        using t1 by (simp_all add: emitted_def)
      with ih show ?thesis by simp
    qed
  qed
qed

lemma wait_results_recording:
  "wait_results (recording c) n wl = wait_results c n (fst wl)"
  by (induction n arbitrary: wl) (auto split: prod.splits)

lemma wait_results_pulses:
  "ring_event_wait c = event_wait \<Longrightarrow> \<not> flag w \<Longrightarrow> SetOnly \<notin> set (schedule w) \<Longrightarrow>
   list_all id (wait_results c n w) = (take n (schedule w) = replicate n Pulse)"
proof (induction n arbitrary: w)
  case 0
  then show ?case by simp
next
  case (Suc n)
  obtain b w' where e: "event_wait 7 w = (b, w')"
    by (cases "event_wait 7 w")
  note step = event_wait_clear [OF Suc.prems(2) Suc.prems(3) e]
  show ?case
  proof (cases b)
    case True
    with step have "schedule w = Pulse # schedule w'" "\<not> flag w'" "SetOnly \<notin> set (schedule w')"
      by simp_all
    with Suc.IH [OF Suc.prems(1), of w'] True e Suc.prems(1) show ?thesis
      by simp
  next
    case False
    with step have "schedule w = [] \<or> (\<exists>rest. schedule w = Silence # rest)" by auto
    with False e Suc.prems(1) show ?thesis by auto
  qed
qed

lemma ring_calls:
  "\<forall>e\<in>set evs. is_RingWait e \<or> is_Print e \<Longrightarrow> filter is_call evs = filter is_RingWait evs"
proof (induction evs)
  case Nil
  then show ?case by simp
next
  case (Cons e evs)
  then show ?case by (cases e) auto
qed

text \<open>
  C4, as the code has it. With \<open>rings_before_answer \<le> 1\<close> the loop returns
  \<open>ok_to_answer = True\<close> at once: no wait, the state untouched. With
  \<open>rings_before_answer = N > 1\<close> it returns true exactly when the next \<open>N - 1\<close> calls of
  \<^verbatim>\<open>wait(7)\<close> all return true; the ring count it leaves is 1 plus the waits that returned
  true before the first that did not; and the ring event receives \<open>N - 1\<close> waits when
  eligible, otherwise one per wait that returned true plus the one that timed out, and
  no more. A wait that returns true need not have seen a new ring. With the ring event
  clear on entry and a modem thread that clears it after every \<^verbatim>\<open>set()\<close>, eligible is
  the same as: the next \<open>N - 1\<close> steps of the modem's thread are ring pulses. With the
  ring event set on entry the loop is eligible without any step of the modem's thread.
\<close>

theorem ring_wait_eligibility:
  "(rings \<le> 1 \<longrightarrow> ring_wait_loop c rings 1 s = ((True, 1), s))
   \<and> (1 < rings \<longrightarrow>
        fst (fst (ring_wait_loop c rings 1 s)) =
          list_all id (wait_results c (nat (rings - 1)) (world s))
        \<and> snd (fst (ring_wait_loop c rings 1 s)) =
            1 + int (length (takeWhile id (wait_results c (nat (rings - 1)) (world s))))
        \<and> length (filter is_RingWait (emitted s (snd (ring_wait_loop c rings 1 s)))) =
            (if list_all id (wait_results c (nat (rings - 1)) (world s)) then nat (rings - 1)
             else Suc (length (takeWhile id (wait_results c (nat (rings - 1)) (world s))))))
   \<and> (1 < rings \<longrightarrow>
        received t (snd (ring_wait_loop (recording c) rings 1 t)) =
          replicate
            (if list_all id (wait_results c (nat (rings - 1)) (fst (world t)))
             then nat (rings - 1)
             else Suc (length (takeWhile id (wait_results c (nat (rings - 1)) (fst (world t))))))
            (RingWait 7))
   \<and> (1 < rings \<and> ring_event_wait c = event_wait \<and> \<not> flag (world s)
        \<and> SetOnly \<notin> set (schedule (world s)) \<longrightarrow>
        fst (fst (ring_wait_loop c rings 1 s)) =
          (take (nat (rings - 1)) (schedule (world s)) = replicate (nat (rings - 1)) Pulse))
   \<and> (1 < rings \<and> ring_event_wait c = event_wait \<and> flag (world s) \<longrightarrow>
        fst (fst (ring_wait_loop c rings 1 s))
        \<and> world (snd (ring_wait_loop c rings 1 s)) = world s)"
proof (intro conjI impI)
  assume "rings \<le> 1"
  then show "ring_wait_loop c rings 1 s = ((True, 1), s)"
    by (simp add: ring_wait_loop.simps)
next
  assume r: "1 < rings"
  obtain ok n s' where l: "ring_wait_loop c rings 1 s = ((ok, n), s')"
    by (cases "ring_wait_loop c rings 1 s") auto
  from r have "1 \<le> rings" by simp
  from ring_wait_loop_signals [OF this l]
  show "fst (fst (ring_wait_loop c rings 1 s)) =
          list_all id (wait_results c (nat (rings - 1)) (world s))"
    and "snd (fst (ring_wait_loop c rings 1 s)) =
            1 + int (length (takeWhile id (wait_results c (nat (rings - 1)) (world s))))"
    and "length (filter is_RingWait (emitted s (snd (ring_wait_loop c rings 1 s)))) =
            (if list_all id (wait_results c (nat (rings - 1)) (world s)) then nat (rings - 1)
             else Suc (length (takeWhile id (wait_results c (nat (rings - 1)) (world s)))))"
    using l by simp_all
next
  assume r: "1 < rings"
  obtain ok n t' where l: "ring_wait_loop (recording c) rings 1 t = ((ok, n), t')"
    by (cases "ring_wait_loop (recording c) rings 1 t") auto
  from r have le: "1 \<le> rings" by simp
  note sig = ring_wait_loop_signals [OF le l, unfolded wait_results_recording]
  from ring_wait_loop_trace [OF l] obtain evs where
    evs: "trace t' = trace t @ evs" "\<forall>e\<in>set evs. is_RingWait e \<or> is_Print e" by blast
  then have em: "emitted t t' = evs" by simp
  have rec: "received t t' = filter is_RingWait evs"
    using faithful_received [OF faithful_ring_wait_loop [OF l]] ring_calls [OF evs(2)]
    by (simp add: em)
  have all: "\<forall>e\<in>set (filter is_RingWait evs). e = RingWait 7"
    using ring_wait_loop_waits [OF l] em by auto
  define k where "k = length (filter is_RingWait evs)"
  have rk: "filter is_RingWait evs = replicate k (RingWait 7)"
    unfolding k_def using all by (simp add: replicate_length_same)
  from sig have "length (filter is_RingWait (emitted t t')) =
      (if ok then nat (rings - 1)
       else Suc (length (takeWhile id (wait_results c (nat (rings - 1)) (fst (world t))))))"
    and "ok = list_all id (wait_results c (nat (rings - 1)) (fst (world t)))"
    by simp_all
  then have kv: "k =
      (if list_all id (wait_results c (nat (rings - 1)) (fst (world t)))
       then nat (rings - 1)
       else Suc (length (takeWhile id (wait_results c (nat (rings - 1)) (fst (world t))))))"
    unfolding k_def em by simp
  have "received t t' = replicate k (RingWait 7)"
    using rec rk by simp
  then show "received t (snd (ring_wait_loop (recording c) rings 1 t)) =
          replicate
            (if list_all id (wait_results c (nat (rings - 1)) (fst (world t)))
             then nat (rings - 1)
             else Suc (length (takeWhile id (wait_results c (nat (rings - 1)) (fst (world t))))))
            (RingWait 7)"
    unfolding l kv [symmetric] by simp
next
  assume a: "1 < rings \<and> ring_event_wait c = event_wait \<and> \<not> flag (world s)
      \<and> SetOnly \<notin> set (schedule (world s))"
  obtain ok n s' where l: "ring_wait_loop c rings 1 s = ((ok, n), s')"
    by (cases "ring_wait_loop c rings 1 s") auto
  from a have le: "1 \<le> rings" and w: "ring_event_wait c = event_wait"
    and f: "\<not> flag (world s)" and n: "SetOnly \<notin> set (schedule (world s))"
    by simp_all
  from ring_wait_loop_signals [OF le l]
  have "ok = list_all id (wait_results c (nat (rings - 1)) (world s))" by simp
  also have "\<dots> = (take (nat (rings - 1)) (schedule (world s)) = replicate (nat (rings - 1)) Pulse)"
    by (rule wait_results_pulses [OF w f n])
  finally show "fst (fst (ring_wait_loop c rings 1 s)) =
          (take (nat (rings - 1)) (schedule (world s)) = replicate (nat (rings - 1)) Pulse)"
    unfolding l by simp
next
  assume a: "1 < rings \<and> ring_event_wait c = event_wait \<and> flag (world s)"
  obtain ok n s' where l: "ring_wait_loop c rings 1 s = ((ok, n), s')"
    by (cases "ring_wait_loop c rings 1 s") auto
  from a have w: "ring_event_wait c = event_wait" and f: "flag (world s)"
    by simp_all
  from ring_wait_loop_flag_set [OF w f l]
  show "fst (fst (ring_wait_loop c rings 1 s))"
    and "world (snd (ring_wait_loop c rings 1 s)) = world s"
    unfolding l by simp_all
qed

text \<open>
  Three rings required: a pulse then silence stops at count 2 after two waits; two pulses
  reach 3. No ring required: nothing is waited for. The event left set: eligible.
\<close>

theorem ring_wait_eligibility_witness:
  "\<not> (3::int) \<le> 1 \<and> (1::int) < 3 \<and> (0::int) \<le> 1 \<and> (1::int) < 4
   \<and> ring_event_wait line = event_wait
   \<and> \<not> flag (world (idle [Pulse, Silence]))
   \<and> SetOnly \<notin> set (schedule (world (idle [Pulse, Silence])))
   \<and> wait_results line (nat (3 - 1)) (world (idle [Pulse, Silence])) = [True, False]
   \<and> fst (ring_wait_loop line 3 1 (idle [Pulse, Silence])) = (False, 2)
   \<and> length (filter is_RingWait (emitted (idle [Pulse, Silence])
        (snd (ring_wait_loop line 3 1 (idle [Pulse, Silence]))))) = 2
   \<and> received (tapped [Pulse, Silence])
        (snd (ring_wait_loop (recording line) 3 1 (tapped [Pulse, Silence]))) =
       [RingWait 7, RingWait 7]
   \<and> take (nat (3 - 1)) (schedule (world (idle [Pulse, Silence]))) \<noteq>
       replicate (nat (3 - 1)) Pulse
   \<and> wait_results line (nat (3 - 1)) (world (idle [Pulse, Pulse])) = [True, True]
   \<and> fst (ring_wait_loop line 3 1 (idle [Pulse, Pulse])) = (True, 3)
   \<and> ring_wait_loop line 0 1 (idle [Pulse]) = ((True, 1), idle [Pulse])
   \<and> flag (world stuck)
   \<and> fst (fst (ring_wait_loop line 4 1 stuck))"
proof -
  have l: "ring_event_wait line = event_wait"
    by (simp add: line_def)
  have v: "\<not> (3::int) \<le> 1 \<and> (1::int) < 3 \<and> (0::int) \<le> 1 \<and> (1::int) < 4
   \<and> \<not> flag (world (idle [Pulse, Silence]))
   \<and> SetOnly \<notin> set (schedule (world (idle [Pulse, Silence])))
   \<and> wait_results line (nat (3 - 1)) (world (idle [Pulse, Silence])) = [True, False]
   \<and> fst (ring_wait_loop line 3 1 (idle [Pulse, Silence])) = (False, 2)
   \<and> length (filter is_RingWait (emitted (idle [Pulse, Silence])
        (snd (ring_wait_loop line 3 1 (idle [Pulse, Silence]))))) = 2
   \<and> received (tapped [Pulse, Silence])
        (snd (ring_wait_loop (recording line) 3 1 (tapped [Pulse, Silence]))) =
       [RingWait 7, RingWait 7]
   \<and> take (nat (3 - 1)) (schedule (world (idle [Pulse, Silence]))) \<noteq>
       replicate (nat (3 - 1)) Pulse
   \<and> wait_results line (nat (3 - 1)) (world (idle [Pulse, Pulse])) = [True, True]
   \<and> fst (ring_wait_loop line 3 1 (idle [Pulse, Pulse])) = (True, 3)
   \<and> ring_wait_loop line 0 1 (idle [Pulse]) = ((True, 1), idle [Pulse])
   \<and> flag (world stuck)
   \<and> fst (fst (ring_wait_loop line 4 1 stuck))"
    by code_simp
  from l v have w: ?thesis by simp
  show ?thesis
    using ring_wait_eligibility [where c = line and rings = 3 and s = "idle [Pulse, Silence]"
        and t = "tapped [Pulse, Silence]"]
      ring_wait_eligibility [where c = line and rings = 0 and s = "idle [Pulse]"
        and t = "tapped [Pulse, Silence]"]
      ring_wait_eligibility [where c = line and rings = 4 and s = stuck
        and t = "tapped [Pulse, Silence]"]
      w
    by -
qed

text \<open>
  C4 as stated fails: the ring event is set and the modem's thread signals nothing more.
  With four rings required all three waits return true at once and the loop reports the
  call eligible, although no additional ring signal arrives.
\<close>

theorem eligible_without_new_ring:
  "flag (world stuck)
   \<and> schedule (world stuck) = []
   \<and> wait_results line 3 (world stuck) = [True, True, True]
   \<and> ring_wait_loop line 4 1 stuck =
       ((True, 4),
        \<lparr>world = \<lparr>flag = True, schedule = []\<rparr>,
         trace = [RingWait 7, Print '' > > > Ring count: {}'' [IntV 2],
                  RingWait 7, Print '' > > > Ring count: {}'' [IntV 3],
                  RingWait 7, Print '' > > > Ring count: {}'' [IntV 4]]\<rparr>)"
proof -
  have "wait_results line 3 (world stuck) = [True, True, True]"
    by code_simp
  then show ?thesis
    by (simp add: ring_wait_loop.simps engine_defs line_defs)
qed

lemma answer_actions_ids:
  "answer_actions c acts g n cl s = (r, s') \<Longrightarrow>
   \<exists>evs. trace s' = trace s @ evs \<and>
     (\<forall>e\<in>set evs. is_Print e \<or> (is_answering e \<and> e \<noteq> PickUp \<and> e \<noteq> HangUp)) \<and>
     (\<forall>m x. RecordMessage m x \<in> set evs \<or> VoiceMessagingMenu m x \<in> set evs \<longrightarrow>
        m = n \<and> x = cl)"
  by (auto simp: answer_actions_def seq_def invoke_eq split: if_splits prod.splits sum.splits)

lemma answer_call_ids:
  assumes ac: "answer_call c acts g n cl s = (r, s')"
  shows "\<exists>evs. trace s' = trace s @ evs \<and>
     (\<forall>m x. RecordMessage m x \<in> set evs \<or> VoiceMessagingMenu m x \<in> set evs \<longrightarrow>
        m = n \<and> x = cl)"
proof (cases "pick_up c (world s)")
  case (Pair p w1)
  show ?thesis
  proof (cases "p = Inr True")
    case False
    with Pair ac have "trace s' = trace s @ [PickUp]"
      by (auto simp: answer_call_def invoke_def split: sum.splits bool.splits)
    then show ?thesis by simp
  next
    case True
    define s1 where "s1 = \<lparr>world = w1, trace = trace s @ [PickUp]\<rparr>"
    obtain r2 s2 where a: "answer_actions c acts g n cl s1 = (r2, s2)"
      by (cases "answer_actions c acts g n cl s1")
    obtain r3 s3 where e: "except_RuntimeError (r2, s2) = (r3, s3)"
      by (cases "except_RuntimeError (r2, s2)")
    from ac Pair True a e have f: "finally_hang_up c (r3, s3) = (r, s')"
      by (simp add: answer_call_def invoke_def s1_def)
    from answer_actions_ids [OF a] obtain evs where
      evs: "trace s2 = trace s1 @ evs"
        "\<forall>m x. RecordMessage m x \<in> set evs \<or> VoiceMessagingMenu m x \<in> set evs \<longrightarrow>
           m = n \<and> x = cl" by blast
    from except_RuntimeError_trace [OF e] obtain pr where
      pr: "trace s3 = trace s2 @ pr" "\<forall>e\<in>set pr. is_Print e" by blast
    have npr: "\<And>m x. RecordMessage m x \<notin> set pr \<and> VoiceMessagingMenu m x \<notin> set pr"
      using pr(2) by auto
    have "trace s' = trace s @ (PickUp # evs @ pr @ [HangUp])"
      using finally_hang_up_trace [OF f] pr evs by (simp add: s1_def)
    moreover have "\<forall>m x. RecordMessage m x \<in> set (PickUp # evs @ pr @ [HangUp])
        \<or> VoiceMessagingMenu m x \<in> set (PickUp # evs @ pr @ [HangUp]) \<longrightarrow> m = n \<and> x = cl"
      using evs(2) npr by auto
    ultimately show ?thesis by blast
  qed
qed

lemma answer_if_ok_ids:
  assumes "answer_if_ok c ns n cl s = (r, s')"
  shows "\<exists>evs. trace s' = trace s @ evs \<and>
     (\<forall>m x. RecordMessage m x \<in> set evs \<or> VoiceMessagingMenu m x \<in> set evs \<longrightarrow>
        m = n \<and> x = cl)"
proof -
  obtain ok k s1 where l: "ring_wait_loop c (rings_before_answer ns) 1 s = ((ok, k), s1)"
    by (cases "ring_wait_loop c (rings_before_answer ns) 1 s") auto
  from ring_wait_loop_trace [OF l] obtain wt where
    wt: "trace s1 = trace s @ wt" "\<forall>e\<in>set wt. is_RingWait e \<or> is_Print e" by blast
  have nwt: "\<And>m x. RecordMessage m x \<notin> set wt \<and> VoiceMessagingMenu m x \<notin> set wt"
    using wt(2) by auto
  show ?thesis
  proof (cases "ok \<and> length (actions ns) > 0")
    case False
    with assms l have "s' = s1" by (auto simp: answer_if_ok_def)
    with wt nwt show ?thesis by auto
  next
    case True
    with assms l have "answer_call c (actions ns) (greeting_file ns) n cl s1 = (r, s')"
      by (auto simp: answer_if_ok_def)
    from answer_call_ids [OF this] obtain an where
      an: "trace s' = trace s1 @ an"
        "\<forall>m x. RecordMessage m x \<in> set an \<or> VoiceMessagingMenu m x \<in> set an \<longrightarrow>
           m = n \<and> x = cl" by blast
    have "trace s' = trace s @ (wt @ an)" using wt an by simp
    moreover have "\<forall>m x. RecordMessage m x \<in> set (wt @ an)
        \<or> VoiceMessagingMenu m x \<in> set (wt @ an) \<longrightarrow> m = n \<and> x = cl"
      using an(2) nwt by auto
    ultimately show ?thesis by blast
  qed
qed

lemma log_and_answer_ids:
  assumes "log_and_answer c cfg caller p v s = (r, s')"
  shows "\<exists>evs. trace s' = trace s @ evs \<and>
     (\<forall>m x. RecordMessage m x \<in> set evs \<or> VoiceMessagingMenu m x \<in> set evs \<longrightarrow>
        x = caller \<and> fst (log_caller c caller (action v) (reason v) (world s)) = Inr m)"
proof -
  obtain r1 s1 where lg: "invoke (LogCaller caller (action v) (reason v))
      (log_caller c caller (action v) (reason v)) s = (r1, s1)"
    by (cases "invoke (LogCaller caller (action v) (reason v))
      (log_caller c caller (action v) (reason v)) s")
  then have t1: "trace s1 = trace s @ [LogCaller caller (action v) (reason v)]"
    and r1: "fst (log_caller c caller (action v) (reason v) (world s)) = r1"
    by (simp_all add: invoke_eq)
  show ?thesis
  proof (cases r1)
    case (Inl e)
    with assms lg have "s' = s1" by (simp add: log_and_answer_def seq_def)
    with t1 show ?thesis by simp
  next
    case (Inr call_no)
    let ?pr = "Print ''--> {} {}: {}'' [Str p, Str (action v), reason v]"
    let ?s2 = "emit ?pr s1"
    show ?thesis
    proof (cases "gather cfg v")
      case (Inl e)
      with assms lg Inr have "s' = ?s2" by (simp add: log_and_answer_def seq_def)
      with t1 show ?thesis by simp
    next
      case g: (Inr ns)
      with assms lg Inr have "answer_if_ok c ns call_no caller ?s2 = (r, s')"
        by (simp add: log_and_answer_def seq_def)
      from answer_if_ok_ids [OF this] obtain evs where
        evs: "trace s' = trace ?s2 @ evs"
          "\<forall>m x. RecordMessage m x \<in> set evs \<or> VoiceMessagingMenu m x \<in> set evs \<longrightarrow>
             m = call_no \<and> x = caller" by blast
      have "trace s' = trace s @ (LogCaller caller (action v) (reason v) # ?pr # evs)"
        using evs(1) t1 by simp
      moreover have "\<forall>m x. RecordMessage m x \<in> set (LogCaller caller (action v) (reason v) # ?pr # evs)
          \<or> VoiceMessagingMenu m x \<in> set (LogCaller caller (action v) (reason v) # ?pr # evs) \<longrightarrow>
          x = caller \<and> fst (log_caller c caller (action v) (reason v) (world s)) = Inr m"
        using evs(2) r1 Inr by auto
      ultimately show ?thesis by blast
    qed
  qed
qed

lemma process_call_ids:
  assumes pn: "phone_number caller = Inr p"
    and sc: "screen_caller c (screening_mode cfg) caller
        (emit (Print ''Incoming call from {}'' [Str p]) s) = (Inr v, s1)"
  shows "\<forall>m x. RecordMessage m x \<in> set (emitted s (snd (process_call c cfg caller s)))
      \<or> VoiceMessagingMenu m x \<in> set (emitted s (snd (process_call c cfg caller s))) \<longrightarrow>
      x = caller \<and> fst (log_caller c caller (action v) (reason v) (world s1)) = Inr m"
proof -
  let ?s0 = "emit (Print ''Incoming call from {}'' [Str p]) s"
  from screen_caller_trace [OF sc] obtain pre where
    pre: "trace s1 = trace ?s0 @ pre" "\<forall>e\<in>set pre. is_screening e" by blast
  have npre: "\<And>m x. RecordMessage m x \<notin> set pre \<and> VoiceMessagingMenu m x \<notin> set pre"
    using pre(2) by auto
  obtain r2 s2 where la: "log_and_answer c cfg caller p v s1 = (r2, s2)"
    by (cases "log_and_answer c cfg caller p v s1")
  with pn sc have pc: "process_call c cfg caller s = (r2, s2)"
    by (simp add: process_call_def seq_def)
  from log_and_answer_ids [OF la] obtain evs where
    evs: "trace s2 = trace s1 @ evs"
      "\<forall>m x. RecordMessage m x \<in> set evs \<or> VoiceMessagingMenu m x \<in> set evs \<longrightarrow>
         x = caller \<and> fst (log_caller c caller (action v) (reason v) (world s1)) = Inr m"
    by blast
  have "emitted s s2 = Print ''Incoming call from {}'' [Str p] # pre @ evs"
    using evs(1) pre(1) by (simp add: emitted_def)
  with evs(2) npre pc show ?thesis by auto
qed

lemma recording_log_fst:
  "fst (log_caller (recording c) caller act why wl) = fst (log_caller c caller act why (fst wl))"
  by (simp split: prod.splits)

lemma screening_calls:
  "\<forall>e\<in>set pre. is_screening e \<Longrightarrow>
   \<forall>e\<in>set (filter is_call pre). \<not> is_LogCaller e \<and> \<not> is_answering e \<and> \<not> is_RingWait e"
  using is_screening_other by auto

lemma answering_calls:
  "\<forall>e\<in>set post. is_Print e \<or> is_RingWait e \<or> is_answering e \<Longrightarrow>
   \<forall>e\<in>set (filter is_call post). \<not> is_LogCaller e"
  using answering_not_blacklist by auto

text \<open>
  C7, as the code has it, against collaborators that record the calls they receive. In
  the handling of one call the modem and the voice mail receive nothing (no ring wait, no
  \<open>pick_up\<close>, no action, no \<open>hang_up\<close>) before the logger has received \<open>log_caller\<close>.
  A call whose number is read and whose screening returns is logged exactly once, with
  the screening's action and reason, whatever follows (the ring wait times out, the
  action list is empty, \<open>pick_up\<close> fails, an action raises), and the identifier handed
  to \<open>record_message\<close> or to the voice-mail menu is the one \<open>log_caller\<close> returned. A
  call whose number cannot be read or whose screening raises is not logged, and its
  handling ends raised.
\<close>

theorem logged_before_answering:
  assumes pc: "process_call (recording c) cfg caller s = (r, s')"
  shows
    "\<not> (\<exists>e\<in>set (takeWhile (\<lambda>e. \<not> is_LogCaller e) (received s s')).
           is_answering e \<or> is_RingWait e)
     \<and> (\<forall>p v s1.
           phone_number caller = Inr p \<and>
           screen_caller (recording c) (screening_mode cfg) caller
             (emit (Print ''Incoming call from {}'' [Str p]) s) = (Inr v, s1) \<longrightarrow>
           filter is_LogCaller (received s s') = [LogCaller caller (action v) (reason v)]
           \<and> (\<forall>n cl. RecordMessage n cl \<in> set (received s s')
                       \<or> VoiceMessagingMenu n cl \<in> set (received s s') \<longrightarrow>
                 cl = caller
                 \<and> fst (log_caller c caller (action v) (reason v) (fst (world s1))) = Inr n))
     \<and> ((\<exists>e. phone_number caller = Inl e)
          \<or> (\<exists>p e. phone_number caller = Inr p \<and>
                fst (screen_caller (recording c) (screening_mode cfg) caller
                       (emit (Print ''Incoming call from {}'' [Str p]) s)) = Inl e) \<longrightarrow>
          filter is_LogCaller (received s s') = [] \<and> (\<exists>e. r = Inl e))"
proof -
  note rec = faithful_received [OF faithful_process_call [OF pc]]
  from process_call_trace [of caller "recording c" cfg s] show ?thesis
  proof (elim disjE exE conjE)
    fix e
    assume pn: "phone_number caller = Inl e"
      and p1: "process_call (recording c) cfg caller s = (Inl e, s)"
    from p1 pc have "s' = s" "r = Inl e" by simp_all
    then have "received s s' = []" by (simp add: received_def)
    with pn \<open>r = Inl e\<close> show ?thesis by simp
  next
    fix p pre e s1
    assume pn: "phone_number caller = Inr p"
      and scr: "screen_caller (recording c) (screening_mode cfg) caller
          (emit (Print ''Incoming call from {}'' [Str p]) s) = (Inl e, s1)"
      and p1: "process_call (recording c) cfg caller s = (Inl e, s1)"
      and pre: "emitted s s1 = pre" "\<forall>e\<in>set pre. is_screening e"
    from p1 pc have eq: "s' = s1" "r = Inl e" by simp_all
    have r0: "received s s' = filter is_call pre" using rec eq pre(1) by simp
    note sc = screening_calls [OF pre(2)]
    from sc have c1: "\<not> (\<exists>e\<in>set (takeWhile (\<lambda>e. \<not> is_LogCaller e) (filter is_call pre)).
        is_answering e \<or> is_RingWait e)"
      by (auto dest: set_takeWhileD)
    from sc have c3: "filter is_LogCaller (filter is_call pre) = []"
      by (auto simp: filter_empty_conv)
    show ?thesis
      unfolding r0 using c1 c3 pn scr eq by auto
  next
    fix p pre v s1 post
    assume pn: "phone_number caller = Inr p"
      and scr: "screen_caller (recording c) (screening_mode cfg) caller
          (emit (Print ''Incoming call from {}'' [Str p]) s) = (Inr v, s1)"
      and em: "emitted s (snd (process_call (recording c) cfg caller s)) =
          pre @ LogCaller caller (action v) (reason v) # post"
      and pre: "\<forall>e\<in>set pre. is_screening e"
      and post: "\<forall>e\<in>set post. is_Print e \<or> is_RingWait e \<or> is_answering e"
    from em pc have em': "emitted s s' = pre @ LogCaller caller (action v) (reason v) # post"
      by simp
    have r0: "received s s' =
        filter is_call pre @ LogCaller caller (action v) (reason v) # filter is_call post"
      using rec em' by simp
    note sc = screening_calls [OF pre]
    note an = answering_calls [OF post]
    have tw: "takeWhile (\<lambda>e. \<not> is_LogCaller e)
        (filter is_call pre @ LogCaller caller (action v) (reason v) # filter is_call post) =
        filter is_call pre"
    proof -
      have "\<And>x. x \<in> set (filter is_call pre) \<Longrightarrow> \<not> is_LogCaller x"
        using sc by blast
      from takeWhile_append2 [of "filter is_call pre" "\<lambda>e. \<not> is_LogCaller e", OF this]
      show ?thesis by simp
    qed
    from sc have c1: "\<not> (\<exists>e\<in>set (filter is_call pre). is_answering e \<or> is_RingWait e)"
      by auto
    from sc have f1: "filter is_LogCaller (filter is_call pre) = []"
      by (auto simp: filter_empty_conv)
    from an have f2: "filter is_LogCaller (filter is_call post) = []"
      by (auto simp: filter_empty_conv)
    have c2: "filter is_LogCaller (received s s') = [LogCaller caller (action v) (reason v)]"
      unfolding r0 using f1 f2 by simp
    have sub: "set (received s s') \<subseteq> set (emitted s (snd (process_call (recording c) cfg caller s)))"
      using rec pc by auto
    have ids: "\<forall>n cl. RecordMessage n cl \<in> set (received s s')
          \<or> VoiceMessagingMenu n cl \<in> set (received s s') \<longrightarrow>
        cl = caller \<and> fst (log_caller c caller (action v) (reason v) (fst (world s1))) = Inr n"
      using process_call_ids [OF pn scr] sub
      unfolding recording_log_fst by blast
    have c1': "\<not> (\<exists>e\<in>set (takeWhile (\<lambda>e. \<not> is_LogCaller e) (received s s')).
           is_answering e \<or> is_RingWait e)"
      unfolding r0 tw using c1 .
    show ?thesis
      using c1' c2 ids pn scr by auto
  qed
qed

text \<open>
  A screened caller whose ringing stops is logged and not answered; a blocked caller is
  logged before the modem refuses the channel; a permitted caller's message is recorded
  under the identifier the logger returned.
\<close>

theorem logged_before_answering_witness:
  "phone_number stranger = Inr ''555-000-1111''
   \<and> fst (screen_caller (recording line) (screening_mode settings) stranger
            (emit (Print ''Incoming call from {}'' [Str ''555-000-1111'']) (tapped [Silence]))) =
       Inr \<lparr>caller_permitted = False, caller_screened = True, caller_blocked = False,
            action = ''Screened'', reason = NoneV\<rparr>
   \<and> received (tapped [Silence])
        (snd (process_call (recording line) settings stranger (tapped [Silence]))) =
       [IsWhitelisted stranger, IsBlacklisted stranger, ApprovedBlink,
        LogCaller stranger ''Screened'' NoneV, RingWait 7]
   \<and> received (tapped [])
        (snd (process_call (recording busy_modem) settings telemarketer (tapped []))) =
       [IsWhitelisted telemarketer, IsBlacklisted telemarketer, BlockedBlink,
        LogCaller telemarketer ''Blocked'' (Str ''Telemarketer''), PickUp]
   \<and> received (tapped [Pulse])
        (snd (process_call (recording line) settings family (tapped [Pulse]))) =
       [IsWhitelisted family, ApprovedBlink, LogCaller family ''Permitted'' (Str ''Family''),
        RingWait 7, PickUp, PlayAudio ''general_greeting.wav'', RecordMessage (IntV 1) family,
        HangUp]
   \<and> fst (log_caller line family ''Permitted'' (Str ''Family'') \<lparr>flag = False, schedule = [Pulse]\<rparr>) =
       Inr (IntV 1)"
proof -
  have v: ?thesis
    by (simp add: engine_defs line_defs ring_wait_loop.simps received_def)
  show ?thesis
    using logged_before_answering [OF prod.collapse [symmetric], where c = line
        and cfg = settings and caller = stranger and s = "tapped [Silence]"]
      logged_before_answering [OF prod.collapse [symmetric], where c = busy_modem
        and cfg = settings and caller = telemarketer and s = "tapped []"]
      logged_before_answering [OF prod.collapse [symmetric], where c = line
        and cfg = settings and caller = family and s = "tapped [Pulse]"]
      v
    by -
qed

text \<open>
  C7 as stated fails: the whitelist lookup raises while the call is classified. The
  handling of the call ends there, the logger has received nothing, and the loop
  returns 1.
\<close>

theorem call_never_logged:
  "fst (is_whitelisted broken_screener stranger (fst (world (tapped [Pulse])))) =
     Inl (OSError ''unable to open database file'')
   \<and> process_call (recording broken_screener) settings stranger (tapped [Pulse]) =
       (Inl (OSError ''unable to open database file''),
        \<lparr>world = (\<lparr>flag = False, schedule = [Pulse]\<rparr>, [IsWhitelisted stranger]),
         trace = [Print ''Incoming call from {}'' [Str ''555-000-1111''],
                  Print ''> Checking whitelist(s)'' [], IsWhitelisted stranger]\<rparr>)
   \<and> filter is_LogCaller (received (tapped [Pulse])
        (snd (process_call (recording broken_screener) settings stranger (tapped [Pulse])))) = []
   \<and> fst (run_loop (recording broken_screener) settings [stranger] (tapped [Pulse])) = Returned 1"
  by (simp add: engine_defs line_defs received_def)

end
